theory Spec2Isabelle
  imports Main
begin

section \<open>JavaScript strings\<close>

text \<open>
  A JavaScript string is a sequence of UTF-16 code units and \<open>length\<close> counts code units.
  The model uses \<^typ>\<open>string\<close> and reads every \<^typ>\<open>char\<close> as one code unit below 256,
  so the inputs covered are the strings of the Latin-1 range. In that range the white space
  of \<open>String.prototype.trim\<close> and of the regular expression class \<open>\s\<close> is the same set:
  tab, line feed, vertical tab, form feed, carriage return, space and no-break space.
\<close>

fun startsWith :: "string \<Rightarrow> string \<Rightarrow> bool" where
  "startsWith s [] = True"
| "startsWith [] (p # ps) = False"
| "startsWith (c # cs) (p # ps) = (c = p \<and> startsWith cs ps)"

definition endsWith :: "string \<Rightarrow> string \<Rightarrow> bool" where
  "endsWith s t = startsWith (rev s) (rev t)"

fun js_includes :: "string \<Rightarrow> string \<Rightarrow> bool" where
  "js_includes [] t = (t = [])"
| "js_includes (c # cs) t = (startsWith (c # cs) t \<or> js_includes cs t)"

definition isSpace :: "char \<Rightarrow> bool" where
  "isSpace c = (c \<in> set [CHR 0x09, CHR 0x0A, CHR 0x0B, CHR 0x0C, CHR 0x0D, CHR 0x20, CHR 0xA0])"

definition isWordChar :: "char \<Rightarrow> bool" where
  "isWordChar c =
     (let n = (of_char c :: nat)
      in (48 \<le> n \<and> n \<le> 57) \<or> (65 \<le> n \<and> n \<le> 90) \<or> (97 \<le> n \<and> n \<le> 122) \<or> n = 95)"

definition trim :: "string \<Rightarrow> string" where
  "trim s = rev (dropWhile isSpace (rev (dropWhile isSpace s)))"

text \<open>\<open>toUpperCase\<close> on tag names: the letters a to z go to A to Z.\<close>

definition toUpperChar :: "char \<Rightarrow> char" where
  "toUpperChar c =
     (if 97 \<le> (of_char c :: nat) \<and> (of_char c :: nat) \<le> 122
      then char_of ((of_char c :: nat) - 32)
      else c)"

definition toUpperCase :: "string \<Rightarrow> string" where
  "toUpperCase s = map toUpperChar s"

text \<open>\<open>s.split("\n")\<close>: the pieces between line feeds; the empty string gives one empty piece.\<close>

fun split_lines :: "string \<Rightarrow> string list" where
  "split_lines [] = [[]]"
| "split_lines (c # cs) =
     (if c = CHR 0x0A then [] # split_lines cs
      else (case split_lines cs of [] \<Rightarrow> [[c]] | l # ls \<Rightarrow> (c # l) # ls))"

text \<open>\<open>xs.join("\n")\<close>.\<close>

fun join_lines :: "string list \<Rightarrow> string" where
  "join_lines [] = []"
| "join_lines [l] = l"
| "join_lines (l # m # ls) = l @ CHR 0x0A # join_lines (m # ls)"

section \<open>Domain filter\<close>

definition socialMediaDomains :: "string list" where
  "socialMediaDomains =
     [''facebook.com'', ''twitter.com'', ''instagram.com'', ''linkedin.com'', ''youtube.com'',
      ''pinterest.com'', ''tiktok.com'', ''reddit.com'', ''tumblr.com'', ''snapchat.com'',
      ''whatsapp.com'', ''telegram.org'', ''discord.com'', ''medium.com'', ''t.co'', ''fb.me'',
      ''youtu.be'', ''bit.ly'', ''goo.gl'', ''tinyurl.com'', ''ow.ly'', ''is.gd'']"

definition isSocialMediaHost :: "string \<Rightarrow> bool" where
  "isSocialMediaHost hostname =
     list_ex (\<lambda>socialDomain. endsWith hostname socialDomain \<or> hostname = socialDomain)
       socialMediaDomains"

definition isExternalOrSocialMediaLink :: "string \<Rightarrow> string \<Rightarrow> bool" where
  "isExternalOrSocialMediaLink hostname baseDomain =
     (if isSocialMediaHost hostname then True
      else if hostname \<noteq> baseDomain \<and> \<not> endsWith hostname (''.'' @ baseDomain) then True
      else False)"

section \<open>Parsed pages\<close>

text \<open>
  The DOM tree that the HTML parser hands to the crawler. An element carries its local name
  (lower case, as the parser produces it for HTML elements), its attributes and its children.
\<close>

datatype node =
    TextNode string
  | CommentNode string
  | Element string "(string \<times> string) list" "node list"

fun isElement :: "node \<Rightarrow> bool" where
  "isElement (Element t a cs) = True"
| "isElement n = False"

fun localName :: "node \<Rightarrow> string" where
  "localName (Element t a cs) = t"
| "localName n = []"

fun getAttribute :: "node \<Rightarrow> string \<Rightarrow> string option" where
  "getAttribute (Element t a cs) k = map_of a k"
| "getAttribute n k = None"

definition tagName :: "node \<Rightarrow> string" where
  "tagName n = toUpperCase (localName n)"

fun textContent :: "node \<Rightarrow> string" where
  "textContent (TextNode t) = t"
| "textContent (CommentNode t) = []"
| "textContent (Element t a cs) = concat (map textContent cs)"

text \<open>All nodes below a root, in document order; the root itself is not among them.\<close>

fun descendants :: "node \<Rightarrow> node list" where
  "descendants (Element t a cs) = concat (map (\<lambda>c. c # descendants c) cs)"
| "descendants n = []"

text \<open>
  The tokens of a \<open>class\<close> attribute, which the DOM separates at ASCII white space (tab,
  line feed, form feed, carriage return, space).
\<close>

definition isAsciiWhitespace :: "char \<Rightarrow> bool" where
  "isAsciiWhitespace c = (c \<in> set [CHR 0x09, CHR 0x0A, CHR 0x0C, CHR 0x0D, CHR 0x20])"

fun classTokens :: "string \<Rightarrow> string list" where
  "classTokens [] = []"
| "classTokens (c # cs) =
     (if isAsciiWhitespace c then classTokens cs
      else (case cs of
              [] \<Rightarrow> [[c]]
            | d # ds \<Rightarrow>
                if isAsciiWhitespace d then [c] # classTokens cs
                else (case classTokens cs of [] \<Rightarrow> [[c]] | tk # tks \<Rightarrow> (c # tk) # tks)))"

text \<open>ASCII case-insensitive equality of two strings.\<close>

definition asciiLower :: "char \<Rightarrow> char" where
  "asciiLower c =
     (if 65 \<le> (of_char c :: nat) \<and> (of_char c :: nat) \<le> 90
      then char_of ((of_char c :: nat) + 32)
      else c)"

definition equalsIgnoreCase :: "string \<Rightarrow> string \<Rightarrow> bool" where
  "equalsIgnoreCase s t = (map asciiLower s = map asciiLower t)"

text \<open>The simple selectors that occur in the crawler's selector lists.\<close>

datatype selector =
    Tag string
  | HasId string
  | HasClass string
  | HasAttr string
  | AttrPrefix string string
  | AttrContains string string

text \<open>
  Whether an element matches one simple selector is decided by the selector engine of the
  HTML library, which is outside the repository. The model takes that decision as a
  parameter, a \<open>selector_engine\<close>; the crawler's own part is what it does with the matches.
\<close>

type_synonym selector_engine = "node \<Rightarrow> selector \<Rightarrow> bool"

text \<open>
  The engine used for the example pages follows the Selectors standard: a document without a
  doctype is in quirks mode (the flag is \<open>True\<close>), where class and ID selectors compare ASCII
  case-insensitively; otherwise they compare exactly. Attribute values always compare
  exactly.
\<close>

fun standardMatches :: "bool \<Rightarrow> node \<Rightarrow> selector \<Rightarrow> bool" where
  "standardMatches quirks n (Tag t) = (isElement n \<and> localName n = t)"
| "standardMatches quirks n (HasId i) =
     (case getAttribute n ''id'' of
        None \<Rightarrow> False
      | Some x \<Rightarrow> if quirks then equalsIgnoreCase x i else x = i)"
| "standardMatches quirks n (HasClass c) =
     (case getAttribute n ''class'' of
        None \<Rightarrow> False
      | Some v \<Rightarrow>
          if quirks then list_ex (\<lambda>tk. equalsIgnoreCase tk c) (classTokens v)
          else c \<in> set (classTokens v))"
| "standardMatches quirks n (HasAttr k) = (getAttribute n k \<noteq> None)"
| "standardMatches quirks n (AttrPrefix k v) =
     (case getAttribute n k of None \<Rightarrow> False | Some x \<Rightarrow> v \<noteq> [] \<and> startsWith x v)"
| "standardMatches quirks n (AttrContains k v) =
     (case getAttribute n k of None \<Rightarrow> False | Some x \<Rightarrow> v \<noteq> [] \<and> js_includes x v)"

text \<open>A selector list matches an element when one of its selectors does.\<close>

definition matchesAny :: "selector_engine \<Rightarrow> selector list \<Rightarrow> node \<Rightarrow> bool" where
  "matchesAny engine sels n = (isElement n \<and> list_ex (engine n) sels)"

definition querySelectorAll :: "selector_engine \<Rightarrow> node \<Rightarrow> selector list \<Rightarrow> node list" where
  "querySelectorAll engine root sels = filter (matchesAny engine sels) (descendants root)"

text \<open>
  \<open>root.querySelectorAll(sels).forEach((el) => el.parentNode?.removeChild(el))\<close>: every
  matching element below the root is detached from its parent, so the tree that remains
  holds no matching element at any depth.
\<close>

fun removeMatching :: "selector_engine \<Rightarrow> selector list \<Rightarrow> node \<Rightarrow> node" where
  "removeMatching engine sels (Element t a cs) =
     Element t a
       (concat (map (\<lambda>c. if matchesAny engine sels c then [] else [removeMatching engine sels c]) cs))"
| "removeMatching engine sels n = n"

record css_style =
  display :: string
  visibility :: string

text \<open>
  \<open>getAllTextNodes\<close> does not use the document it is called for: it reads the identifier
  \<open>document\<close> of the global scope. \<open>NoGlobalDocument\<close> is a runtime without that global,
  where the read raises a ReferenceError. \<open>GlobalDocument v\<close> is a runtime with it; \<open>v\<close>
  is \<open>getComputedStyle\<close> of its \<open>defaultView\<close>, or \<open>None\<close> when it has no view.
\<close>

datatype global_document =
    NoGlobalDocument
  | GlobalDocument "(node \<Rightarrow> css_style) option"

datatype js_error = ReferenceError

section \<open>Content cleaner\<close>

definition elementsToRemove :: "selector list" where
  "elementsToRemove =
     [Tag ''script'', Tag ''style'', Tag ''iframe'', Tag ''noscript'', Tag ''svg'', Tag ''canvas'',
      Tag ''code'', Tag ''pre'',
      AttrContains ''style'' ''display:none'', AttrContains ''style'' ''display: none'',
      AttrContains ''style'' ''visibility:hidden'', AttrContains ''style'' ''visibility: hidden'',
      Tag ''link'', Tag ''meta'']"

definition nonContentSelectors :: "selector list" where
  "nonContentSelectors =
     [HasId ''header'', HasId ''footer'', HasId ''nav'', HasId ''navigation'', HasId ''menu'', HasId ''sidebar'',
      HasId ''comments'', HasId ''related'', HasId ''social'', HasId ''sharing'', HasId ''ad'', HasId ''ads'',
      HasId ''advertisement'',
      HasClass ''header'', HasClass ''footer'', HasClass ''nav'', HasClass ''navigation'', HasClass ''menu'',
      HasClass ''sidebar'', HasClass ''comments'', HasClass ''related'', HasClass ''social'', HasClass ''sharing'',
      HasClass ''ad'', HasClass ''ads'', HasClass ''advertisement'',
      HasAttr ''data-nextjs-data'', HasAttr ''data-reactroot'',
      AttrPrefix ''id'' ''__next'', AttrPrefix ''class'' ''__next'',
      HasClass ''cookie-banner'', HasClass ''popup'', HasClass ''modal'', HasClass ''overlay'',
      HasClass ''notification'',
      HasClass ''breadcrumbs'', HasClass ''pagination'', HasClass ''search'', HasClass ''search-form'',
      HasClass ''button'', HasClass ''btn'', HasClass ''icon'', HasClass ''dropdown'', HasClass ''tooltip'']"

definition contentSelectors :: "selector list" where
  "contentSelectors =
     [Tag ''h1'', Tag ''h2'', Tag ''h3'', Tag ''h4'', Tag ''h5'', Tag ''h6'', Tag ''p'',
      Tag ''article'', Tag ''section'', Tag ''main'',
      HasClass ''content'', HasClass ''article'', HasClass ''post'', HasClass ''entry'',
      Tag ''li'', Tag ''td'', Tag ''th'', Tag ''dt'', Tag ''dd'', Tag ''figcaption'',
      Tag ''blockquote'']"

text \<open>\<open>/^H[1-6]$/.test(el.tagName)\<close>\<close>

definition isHeadingTagName :: "string \<Rightarrow> bool" where
  "isHeadingTagName tn =
     (case tn of [h, d] \<Rightarrow> h = CHR ''H'' \<and> d \<in> set ''123456'' | _ \<Rightarrow> False)"

text \<open>The loop over the whitelisted elements (headings are wrapped).\<close>

definition contentElementBlocks :: "node list \<Rightarrow> string list" where
  "contentElementBlocks els =
     concat (map (\<lambda>el.
       let text = trim (textContent el)
       in if text \<noteq> [] \<and> length text > 0
          then (if isHeadingTagName (tagName el)
                then [''\<newline>== '' @ text @ '' ==\<newline>'']
                else [text])
          else []) els)"

text \<open>The loop over the paragraph elements of the first fallback.\<close>

definition paragraphBlocks :: "node list \<Rightarrow> string list" where
  "paragraphBlocks ps =
     concat (map (\<lambda>p.
       let text = trim (textContent p)
       in if text \<noteq> [] \<and> length text > 0 then [text] else []) ps)"

text \<open>
  The tree walker of \<open>getAllTextNodes\<close>: the text nodes below the element in document
  order, each paired with its parent element.
\<close>

fun textNodesBelow :: "node \<Rightarrow> node \<Rightarrow> (node \<times> string) list" where
  "textNodesBelow parent (TextNode t) = [(parent, t)]"
| "textNodesBelow parent (CommentNode t) = []"
| "textNodesBelow parent (Element t a cs) = concat (map (textNodesBelow (Element t a cs)) cs)"

definition blacklistedParent :: "node \<Rightarrow> bool" where
  "blacklistedParent parent =
     (toUpperCase (tagName parent) \<in>
        set [''SCRIPT'', ''STYLE'', ''NOSCRIPT'', ''IFRAME'', ''SVG'', ''CANVAS'', ''CODE''])"

definition hiddenParent :: "(node \<Rightarrow> css_style) option \<Rightarrow> node \<Rightarrow> bool" where
  "hiddenParent view parent =
     (case view of
        None \<Rightarrow> False
      | Some getComputedStyle \<Rightarrow>
          display (getComputedStyle parent) = ''none'' \<or>
          visibility (getComputedStyle parent) = ''hidden'')"

definition getAllTextNodes :: "global_document \<Rightarrow> node \<Rightarrow> js_error + string list" where
  "getAllTextNodes gd element =
     (case gd of
        NoGlobalDocument \<Rightarrow> Inl ReferenceError
      | GlobalDocument view \<Rightarrow>
          Inr (map snd
                (filter (\<lambda>(parent, t). \<not> blacklistedParent parent \<and> \<not> hiddenParent view parent)
                   (textNodesBelow element element))))"

text \<open>The loop over the text nodes of the last resort.\<close>

definition textNodeBlocks :: "string list \<Rightarrow> string list" where
  "textNodeBlocks textNodes =
     concat (map (\<lambda>data.
       let text = trim data
       in if text \<noteq> [] \<and> length text > 0 \<and> length text < 500 then [text] else []) textNodes)"

text \<open>Step 3 of \<open>extractCleanContent\<close>: the text blocks of the stripped body.\<close>

definition extractTextBlocks ::
  "global_document \<Rightarrow> selector_engine \<Rightarrow> node \<Rightarrow> js_error + string list" where
  "extractTextBlocks gd engine body =
     (let contentElements = querySelectorAll engine body contentSelectors
      in if length contentElements > 0 then Inr (contentElementBlocks contentElements)
         else
           (let paragraphs = querySelectorAll engine body [Tag ''p'']
            in if length paragraphs > 0 then Inr (paragraphBlocks paragraphs)
               else (case getAllTextNodes gd body of
                       Inl e \<Rightarrow> Inl e
                     | Inr textNodes \<Rightarrow> Inr (textNodeBlocks textNodes))))"

subsection \<open>Code-likeness filter\<close>

text \<open>The characters of the class \<open>[{}[\]"':]\<close>.\<close>

definition isBracketOrQuote :: "char \<Rightarrow> bool" where
  "isBracketOrQuote c = (c \<in> set (''{}[]:'' @ [CHR 0x22, CHR 0x27]))"

text \<open>
  The test of the filter callback on the trimmed line. The last signal compares the number of
  matches of \<open>/[^\w\s]/g\<close> with \<open>trimmed.length * 0.3\<close>; both sides are written in
  tenths here, which agrees with the floating-point comparison for every length a string
  can have.
\<close>

definition isCodeLike :: "string \<Rightarrow> bool" where
  "isCodeLike trimmed =
     (js_includes trimmed ''function('' \<or>
      js_includes trimmed ''() =>'' \<or>
      js_includes trimmed ''var '' \<or>
      js_includes trimmed ''const '' \<or>
      js_includes trimmed ''let '' \<or>
      js_includes trimmed ''self.__next'' \<or>
      js_includes trimmed ''window.'' \<or>
      js_includes trimmed ''document.'' \<or>
      js_includes trimmed ''$.'' \<or>
      js_includes trimmed ''jQuery'' \<or>
      length (filter isBracketOrQuote trimmed) > 3 \<or>
      js_includes trimmed ''/static/'' \<or>
      js_includes trimmed ''/_next/'' \<or>
      js_includes trimmed ''.js'' \<or>
      js_includes trimmed ''.css'' \<or>
      js_includes trimmed ''<div'' \<or>
      js_includes trimmed ''<span'' \<or>
      js_includes trimmed ''<script'' \<or>
      js_includes trimmed ''<style'' \<or>
      js_includes trimmed ''==='' \<or>
      js_includes trimmed ''!=='' \<or>
      js_includes trimmed ''++'' \<or>
      js_includes trimmed ''--'' \<or>
      (length trimmed > 100 \<and> \<not> js_includes trimmed '' '') \<or>
      10 * length (filter (\<lambda>c. \<not> isWordChar c \<and> \<not> isSpace c) trimmed) > 3 * length trimmed)"

text \<open>The filter callback: \<open>True\<close> keeps the line.\<close>

definition keepLine :: "string \<Rightarrow> bool" where
  "keepLine line =
     (let trimmed = trim line
      in if length trimmed = 0 then False
         else if isCodeLike trimmed then False
         else True)"

text \<open>
  \<open>result.replace(/\{[^{}]*\}/g, "")\<close>. A match starts at an opening brace whose next brace
  is a closing one. The first argument holds, reversed, the text read since an opening
  brace that is still undecided.
\<close>

fun removeBraceBlocks :: "string option \<Rightarrow> string \<Rightarrow> string" where
  "removeBraceBlocks None [] = []"
| "removeBraceBlocks (Some buf) [] = CHR ''{'' # rev buf"
| "removeBraceBlocks None (c # cs) =
     (if c = CHR ''{'' then removeBraceBlocks (Some []) cs
      else c # removeBraceBlocks None cs)"
| "removeBraceBlocks (Some buf) (c # cs) =
     (if c = CHR ''}'' then removeBraceBlocks None cs
      else if c = CHR ''{'' then (CHR ''{'' # rev buf) @ removeBraceBlocks (Some []) cs
      else removeBraceBlocks (Some (c # buf)) cs)"

text \<open>
  \<open>result.replace(/\s{3,}/g, "\n\n")\<close>. The first argument holds, reversed, the run of
  white space being read; a run of three or more becomes two line feeds.
\<close>

definition flushSpaces :: "string \<Rightarrow> string" where
  "flushSpaces buf = (if length buf \<ge> 3 then [CHR 0x0A, CHR 0x0A] else rev buf)"

fun collapseSpaces :: "string \<Rightarrow> string \<Rightarrow> string" where
  "collapseSpaces buf [] = flushSpaces buf"
| "collapseSpaces buf (c # cs) =
     (if isSpace c then collapseSpaces (c # buf) cs
      else flushSpaces buf @ c # collapseSpaces [] cs)"

definition filterCodeLikeContent :: "string \<Rightarrow> string" where
  "filterCodeLikeContent text =
     (let lines = split_lines text;
          filteredLines = filter keepLine lines;
          result = join_lines filteredLines;
          result = removeBraceBlocks None result;
          result = collapseSpaces [] result
      in result)"

definition extractCleanContent ::
  "global_document \<Rightarrow> selector_engine \<Rightarrow> node \<Rightarrow> js_error + string" where
  "extractCleanContent gd engine docBody =
     (let body = removeMatching engine elementsToRemove docBody;
          body = removeMatching engine nonContentSelectors body
      in case extractTextBlocks gd engine body of
           Inl e \<Rightarrow> Inl e
         | Inr textBlocks \<Rightarrow>
             (let content = join_lines textBlocks;
                  content = filterCodeLikeContent content
              in Inr content))"

section \<open>Traversal controller\<close>

subsection \<open>The world outside the crawler\<close>

text \<open>
  What \<open>fetch\<close> gives for a URL: the promise rejects (\<open>NetworkError\<close>), or it resolves to a
  response with a status and a body; the body is \<open>None\<close> when reading it rejects. The network
  is a function of the URL: a URL that is fetched twice in one crawl answers the same way.
  What the crawler prints on the console is not part of the model.
\<close>

datatype response = NetworkError | Response nat "string option"

text \<open>\<open>response.ok\<close>\<close>

definition ok :: "nat \<Rightarrow> bool" where
  "ok status = (200 \<le> status \<and> status \<le> 299)"

datatype img = Img (src: string) (alt: string)

datatype anchor = Anchor (href: string)

text \<open>
  The view of a parsed document that \<open>crawlWebsite\<close> reads: \<open>document.title\<close>,
  \<open>document.body\<close>, and the element lists of \<open>querySelectorAll("img")\<close> and
  \<open>querySelectorAll("a")\<close> with their \<open>src\<close>, \<open>alt\<close> and \<open>href\<close> properties. The document
  also carries the selector engine that answers \<open>querySelectorAll\<close> on its elements, which
  depends on the mode the parser put the document in.
\<close>

datatype document =
  Document (title: string) (selectorEngine: selector_engine) (body: node)
    (images: "img list") (links: "anchor list")

text \<open>The two calls of the optional progress callback, with the values its arguments are computed from.\<close>

datatype progress_call =
    Crawling nat nat string
  | Complete

text \<open>
  Library functions and the environment are parameters of the model. \<open>url_resolve rel base\<close>
  is \<open>new URL(rel, base).href\<close> and \<open>url_hostname u\<close> is \<open>new URL(u).hostname\<close>, \<open>None\<close>
  where the constructor throws. \<open>mkdir_ok\<close> and \<open>writeFile_ok\<close> say whether the file-system
  call on a path succeeds. A progress callback answers whether it returned normally.
\<close>

record world =
  fetch :: "string \<Rightarrow> response"
  parseHTML :: "string \<Rightarrow> document"
  url_resolve :: "string \<Rightarrow> string \<Rightarrow> string option"
  url_hostname :: "string \<Rightarrow> string option"
  extname :: "string \<Rightarrow> string"
  sanitize :: "string \<Rightarrow> string"
  path_join :: "string list \<Rightarrow> string"
  cwd :: string
  now :: string
  mkdir_ok :: "string \<Rightarrow> bool"
  writeFile_ok :: "string \<Rightarrow> bool"
  globalDocument :: global_document
  progressCallback :: "(progress_call \<Rightarrow> bool) option"

subsection \<open>The state of one crawl\<close>

text \<open>
  \<open>visited\<close> is a JavaScript \<open>Set\<close>, which keeps its members in insertion order: a list
  without repetitions, extended by \<open>set_add\<close>. \<open>files\<close> lists the successful \<open>writeFile\<close>
  calls in order, each with its path and data.
\<close>

record crawl_state =
  visited :: "string list"
  queue :: "string list"
  contentLines :: "string list"
  imageCounter :: nat
  pagesProcessed :: nat
  files :: "(string \<times> string) list"

definition set_add :: "string \<Rightarrow> string list \<Rightarrow> string list" where
  "set_add u vs = (if u \<in> set vs then vs else vs @ [u])"

definition initial_state :: "string \<Rightarrow> crawl_state" where
  "initial_state startUrl =
     \<lparr>visited = [], queue = [startUrl], contentLines = [], imageCounter = 0,
      pagesProcessed = 0, files = []\<rparr>"

subsection \<open>Images\<close>

text \<open>\<open>String.fromCharCode(65 + (imageCounter % 26))\<close>\<close>

definition imageId :: "nat \<Rightarrow> string" where
  "imageId counter = [char_of (65 + counter mod 26)]"

definition imageReference :: "string \<Rightarrow> string \<Rightarrow> string" where
  "imageReference ident altText =
     ''\<newline>image['' @ [CHR 0x22] @ ident @ [CHR 0x22] @ '']: '' @ altText"

text \<open>The download of one image, from the fetch to the file write.\<close>

definition downloadImage :: "world \<Rightarrow> string \<Rightarrow> string \<Rightarrow> string \<Rightarrow> crawl_state \<Rightarrow> crawl_state" where
  "downloadImage w imagesDir imgUrl ident s =
     (case fetch w imgUrl of
        NetworkError \<Rightarrow> s
      | Response status content \<Rightarrow>
          if ok status then
            (case content of
               None \<Rightarrow> s
             | Some imgBuffer \<Rightarrow>
                 (let imgExt = (if extname w imgUrl = [] then ''.jpg'' else extname w imgUrl);
                      imgFilename = ''image_'' @ ident @ imgExt;
                      target = path_join w [imagesDir, imgFilename]
                  in if writeFile_ok w target
                     then s\<lparr>files := files s @ [(target, imgBuffer)]\<rparr>
                     else s))
          else s)"

text \<open>One round of the loop over the image elements of a page.\<close>

definition processImage :: "world \<Rightarrow> string \<Rightarrow> string \<Rightarrow> crawl_state \<Rightarrow> img \<Rightarrow> crawl_state" where
  "processImage w imagesDir currentUrl s im =
     (if src im = [] then s
      else
        (case url_resolve w (src im) currentUrl of
           None \<Rightarrow> s
         | Some imgUrl \<Rightarrow>
             if startsWith imgUrl ''data:'' then s
             else
               (let ident = imageId (imageCounter s);
                    s = s\<lparr>imageCounter := imageCounter s + 1\<rparr>;
                    altText = (if alt im = [] then ''No description'' else alt im);
                    s = s\<lparr>contentLines := contentLines s @ [imageReference ident altText]\<rparr>
                in downloadImage w imagesDir imgUrl ident s)))"

definition processImages :: "world \<Rightarrow> string \<Rightarrow> string \<Rightarrow> crawl_state \<Rightarrow> img list \<Rightarrow> crawl_state" where
  "processImages w imagesDir currentUrl s imgs = foldl (processImage w imagesDir currentUrl) s imgs"

subsection \<open>Links\<close>

text \<open>One round of the loop over the anchor elements of a page.\<close>

definition processLink :: "world \<Rightarrow> string \<Rightarrow> string \<Rightarrow> crawl_state \<Rightarrow> anchor \<Rightarrow> crawl_state" where
  "processLink w domain currentUrl s link =
     (if href link = [] then s
      else
        (case url_resolve w (href link) currentUrl of
           None \<Rightarrow> s
         | Some linkUrl \<Rightarrow>
             (case url_hostname w linkUrl of
                None \<Rightarrow> s
              | Some linkHostname \<Rightarrow>
                  if isExternalOrSocialMediaLink linkHostname domain then s
                  else if (linkHostname = domain \<or> endsWith linkHostname (''.'' @ domain)) \<and>
                          \<not> js_includes linkUrl ''#'' \<and>
                          linkUrl \<notin> set (visited s) \<and>
                          linkUrl \<notin> set (queue s)
                  then s\<lparr>queue := queue s @ [linkUrl]\<rparr>
                  else s)))"

definition processLinks :: "world \<Rightarrow> string \<Rightarrow> string \<Rightarrow> crawl_state \<Rightarrow> anchor list \<Rightarrow> crawl_state" where
  "processLinks w domain currentUrl s anchors = foldl (processLink w domain currentUrl) s anchors"

subsection \<open>Pages and the main loop\<close>

text \<open>
  The first part of the page's \<open>try\<close> block: the progress callback, the fetch, the status
  check and the parse. \<open>None\<close> is every way of leaving the block here: the callback or the
  fetch throws, the status is not a 2xx one (\<open>continue\<close>), or reading the body rejects.
\<close>

definition loadPage :: "world \<Rightarrow> crawl_state \<Rightarrow> string \<Rightarrow> document option" where
  "loadPage w s currentUrl =
     (if (case progressCallback w of
            None \<Rightarrow> True
          | Some callback \<Rightarrow> callback (Crawling (pagesProcessed s) (length (queue s)) currentUrl))
      then
        (case fetch w currentUrl of
           NetworkError \<Rightarrow> None
         | Response status content \<Rightarrow>
             if \<not> ok status then None
             else (case content of None \<Rightarrow> None | Some html \<Rightarrow> Some (parseHTML w html)))
      else None)"

text \<open>
  The rest of the \<open>try\<close> block. When \<open>extractCleanContent\<close> throws, the \<open>catch\<close> of the
  page keeps what was pushed before and the loop goes on with the next URL.
\<close>

definition processPage ::
  "world \<Rightarrow> string \<Rightarrow> string \<Rightarrow> string \<Rightarrow> document \<Rightarrow> crawl_state \<Rightarrow> crawl_state" where
  "processPage w domain imagesDir currentUrl doc s =
     (let pageTitle = (if title doc = [] then ''No Title'' else title doc);
          s = s\<lparr>contentLines :=
                 contentLines s @ [''\<newline>\<newline>==== PAGE: '' @ pageTitle @ '' ===='']\<rparr>;
          s = s\<lparr>contentLines := contentLines s @ [''URL: '' @ currentUrl @ ''\<newline>'']\<rparr>
      in case extractCleanContent (globalDocument w) (selectorEngine doc) (body doc) of
           Inl e \<Rightarrow> s
         | Inr cleanText \<Rightarrow>
             (let s = s\<lparr>contentLines := contentLines s @ [cleanText]\<rparr>;
                  s = processImages w imagesDir currentUrl s (images doc);
                  s = processLinks w domain currentUrl s (links doc)
              in s\<lparr>pagesProcessed := pagesProcessed s + 1\<rparr>))"

text \<open>One round of the \<open>while\<close> loop, on a state whose queue is not empty.\<close>

definition crawlIteration :: "world \<Rightarrow> string \<Rightarrow> string \<Rightarrow> crawl_state \<Rightarrow> crawl_state" where
  "crawlIteration w domain imagesDir s =
     (case queue s of
        [] \<Rightarrow> s
      | currentUrl # rest \<Rightarrow>
          (let s = s\<lparr>queue := rest\<rparr>
           in if currentUrl \<in> set (visited s) then s
              else
                (let s = s\<lparr>visited := set_add currentUrl (visited s)\<rparr>
                 in case loadPage w s currentUrl of
                      None \<Rightarrow> s
                    | Some doc \<Rightarrow> processPage w domain imagesDir currentUrl doc s)))"

text \<open>
  The \<open>while (queue.length > 0)\<close> loop. Nothing bounds the number of rounds, so the model
  carries fuel: \<open>None\<close> says that the queue was not empty when the fuel ran out.
\<close>

fun crawlLoop :: "world \<Rightarrow> string \<Rightarrow> string \<Rightarrow> nat \<Rightarrow> crawl_state \<Rightarrow> crawl_state option" where
  "crawlLoop w domain imagesDir 0 s = (if queue s = [] then Some s else None)"
| "crawlLoop w domain imagesDir (Suc n) s =
     (if queue s = [] then Some s
      else crawlLoop w domain imagesDir n (crawlIteration w domain imagesDir s))"

text \<open>The state at the loop head after at most \<open>k\<close> rounds.\<close>

fun crawlSteps :: "world \<Rightarrow> string \<Rightarrow> string \<Rightarrow> nat \<Rightarrow> crawl_state \<Rightarrow> crawl_state" where
  "crawlSteps w domain imagesDir 0 s = s"
| "crawlSteps w domain imagesDir (Suc k) s =
     (if queue s = [] then s
      else crawlSteps w domain imagesDir k (crawlIteration w domain imagesDir s))"

datatype crawl_error =
    InvalidUrl
  | MkdirFailed string
  | WriteFileFailed string
  | CallbackFailed

datatype crawl_result =
    Success (outputDir: string) (pagesVisited: nat) (imagesDownloaded: nat)
  | Failure (error: crawl_error)

fun success :: "crawl_result \<Rightarrow> bool" where
  "success (Success d p i) = True"
| "success (Failure e) = False"

definition outputDirOf :: "world \<Rightarrow> string \<Rightarrow> string" where
  "outputDirOf w domain = path_join w [cwd w, ''tmp'', sanitize w (domain @ ''-crawl-'' @ now w)]"

definition imagesDirOf :: "world \<Rightarrow> string \<Rightarrow> string" where
  "imagesDirOf w domain = path_join w [outputDirOf w domain, ''images'']"

definition outputFileOf :: "world \<Rightarrow> string \<Rightarrow> string" where
  "outputFileOf w domain = path_join w [outputDirOf w domain, domain @ ''-content.txt'']"

text \<open>
  \<open>crawlWebsite\<close> returns its result together with the files it wrote. The outer \<open>catch\<close>
  turns every exception outside the page loop into a failure result.
\<close>

definition crawlWebsite ::
  "world \<Rightarrow> nat \<Rightarrow> string \<Rightarrow> (crawl_result \<times> (string \<times> string) list) option" where
  "crawlWebsite w fuel startUrl =
     (case url_hostname w startUrl of
        None \<Rightarrow> Some (Failure InvalidUrl, [])
      | Some domain \<Rightarrow>
          if \<not> mkdir_ok w (outputDirOf w domain)
          then Some (Failure (MkdirFailed (outputDirOf w domain)), [])
          else if \<not> mkdir_ok w (imagesDirOf w domain)
          then Some (Failure (MkdirFailed (imagesDirOf w domain)), [])
          else
            (case crawlLoop w domain (imagesDirOf w domain) fuel (initial_state startUrl) of
               None \<Rightarrow> None
             | Some s \<Rightarrow>
                 if \<not> writeFile_ok w (outputFileOf w domain)
                 then Some (Failure (WriteFileFailed (outputFileOf w domain)), files s)
                 else
                   (let written = files s @ [(outputFileOf w domain, join_lines (contentLines s))]
                    in if (case progressCallback w of
                             None \<Rightarrow> True
                           | Some callback \<Rightarrow> callback Complete)
                       then Some (Success (outputDirOf w domain) (length (visited s))
                                    (imageCounter s), written)
                       else Some (Failure CallbackFailed, written))))"

section \<open>Archiver\<close>

text \<open>
  \<open>createZipArchive\<close> returns a promise and registers three handlers: \<open>close\<close> on the
  output stream, \<open>warning\<close> and \<open>error\<close> on the archive. The archiving library is outside
  the repository; a run of it is the sequence of events it emits. A promise settles once:
  \<open>resolve\<close> and \<open>reject\<close> on a settled promise do nothing.
\<close>

datatype archiver_error = ArchiverError (code: string) (message: string)

datatype archive_event =
    OutputClose nat
  | ArchiveWarning archiver_error
  | ArchiveErrorEvent archiver_error

datatype promise_state = Pending | Resolved | Rejected archiver_error

datatype console_entry =
    LogArchiveCreated nat
  | WarnError archiver_error

record archive_run =
  promise :: promise_state
  console :: "console_entry list"

definition resolve :: "archive_run \<Rightarrow> archive_run" where
  "resolve r = (if promise r = Pending then r\<lparr>promise := Resolved\<rparr> else r)"

definition reject :: "archiver_error \<Rightarrow> archive_run \<Rightarrow> archive_run" where
  "reject err r = (if promise r = Pending then r\<lparr>promise := Rejected err\<rparr> else r)"

text \<open>The three handlers; \<open>OutputClose n\<close> carries the value of \<open>archive.pointer()\<close>.\<close>

fun handleEvent :: "archive_run \<Rightarrow> archive_event \<Rightarrow> archive_run" where
  "handleEvent r (OutputClose n) = resolve (r\<lparr>console := console r @ [LogArchiveCreated n]\<rparr>)"
| "handleEvent r (ArchiveWarning err) =
     (if code err = ''ENOENT'' then r\<lparr>console := console r @ [WarnError err]\<rparr>
      else reject err r)"
| "handleEvent r (ArchiveErrorEvent err) = reject err r"

definition createZipArchive :: "archive_event list \<Rightarrow> archive_run" where
  "createZipArchive events = foldl handleEvent \<lparr>promise = Pending, console = []\<rparr> events"

section \<open>Notions used to state the properties\<close>

subsection \<open>Links that the domain filter lets through\<close>

text \<open>
  A URL passes the filter of the link loop when its host is not external or social and is the
  base domain or ends with a dot and the base domain, and the URL holds no fragment marker.
\<close>

definition passesFilter :: "world \<Rightarrow> string \<Rightarrow> string \<Rightarrow> bool" where
  "passesFilter w domain u =
     (case url_hostname w u of
        None \<Rightarrow> False
      | Some h \<Rightarrow>
          \<not> isExternalOrSocialMediaLink h domain \<and>
          (h = domain \<or> endsWith h (''.'' @ domain)) \<and>
          \<not> js_includes u ''#'')"

text \<open>The page that a fetch of a URL yields: the parsed body of a 2xx response.\<close>

definition pageAt :: "world \<Rightarrow> string \<Rightarrow> document option" where
  "pageAt w u =
     (case fetch w u of
        NetworkError \<Rightarrow> None
      | Response status content \<Rightarrow>
          if \<not> ok status then None
          else (case content of None \<Rightarrow> None | Some html \<Rightarrow> Some (parseHTML w html)))"

text \<open>
  The URLs that the links of the page at \<open>base\<close> lead to and that pass the filter; none
  when the URL yields no page.
\<close>

definition inScopeLinks :: "world \<Rightarrow> string \<Rightarrow> string \<Rightarrow> string list" where
  "inScopeLinks w domain base =
     (case pageAt w base of
        None \<Rightarrow> []
      | Some doc \<Rightarrow>
          filter (passesFilter w domain)
            (concat (map (\<lambda>l. if href l = [] then []
                               else (case url_resolve w (href l) base of
                                       None \<Rightarrow> []
                                     | Some u \<Rightarrow> [u]))
                       (links doc))))"

text \<open>
  The frontier invariant relative to a set \<open>U\<close> of URLs: \<open>visited\<close> and the queue hold no
  URL twice, share no URL, and hold URLs of \<open>U\<close> only.
\<close>

definition frontier_inv :: "string set \<Rightarrow> crawl_state \<Rightarrow> bool" where
  "frontier_inv U s =
     (distinct (visited s) \<and> distinct (queue s) \<and>
      set (queue s) \<inter> set (visited s) = {} \<and>
      set (queue s) \<union> set (visited s) \<subseteq> U)"

text \<open>The two lines that open the block of a page.\<close>

definition pageHeader :: "document \<Rightarrow> string \<Rightarrow> string list" where
  "pageHeader doc currentUrl =
     [''\<newline>\<newline>==== PAGE: '' @ (if title doc = [] then ''No Title'' else title doc) @ '' ===='',
      ''URL: '' @ currentUrl @ ''\<newline>'']"

subsection \<open>Images that a round of the loop meets\<close>

text \<open>
  An image element counts when it has a source that resolves to a URL which is not a
  \<open>data:\<close> URL.
\<close>

definition countedImage :: "world \<Rightarrow> string \<Rightarrow> img \<Rightarrow> bool" where
  "countedImage w currentUrl im =
     (src im \<noteq> [] \<and>
      (case url_resolve w (src im) currentUrl of
         None \<Rightarrow> False
       | Some imgUrl \<Rightarrow> \<not> startsWith imgUrl ''data:''))"

definition altTextOf :: "img \<Rightarrow> string" where
  "altTextOf im = (if alt im = [] then ''No description'' else alt im)"

text \<open>
  The counted images of the page whose image loop runs in the round that starts in state
  \<open>s\<close>, in page order; none when the round ends before the image loop.
\<close>

definition imagesEncountered :: "world \<Rightarrow> crawl_state \<Rightarrow> img list" where
  "imagesEncountered w s =
     (case queue s of
        [] \<Rightarrow> []
      | currentUrl # rest \<Rightarrow>
          if currentUrl \<in> set (visited s) then []
          else
            (case loadPage w (s\<lparr>queue := rest, visited := set_add currentUrl (visited s)\<rparr>)
                    currentUrl of
               None \<Rightarrow> []
             | Some doc \<Rightarrow>
                 (case extractCleanContent (globalDocument w) (selectorEngine doc) (body doc) of
                    Inl e \<Rightarrow> []
                  | Inr cleanText \<Rightarrow> filter (countedImage w currentUrl) (images doc))))"

text \<open>The number of counted images met in the first \<open>k\<close> rounds of a crawl.\<close>

definition imagesBefore :: "world \<Rightarrow> string \<Rightarrow> string \<Rightarrow> string \<Rightarrow> nat \<Rightarrow> nat" where
  "imagesBefore w domain imagesDir startUrl k =
     (\<Sum>j<k. length (imagesEncountered w
                       (crawlSteps w domain imagesDir j (initial_state startUrl))))"

definition letters :: string where
  "letters = ''ABCDEFGHIJKLMNOPQRSTUVWXYZ''"

text \<open>
  The reference lines of a list of counted images that are number \<open>n\<close>, \<open>n + 1\<close>, ... of
  the crawl: image number \<open>j\<close> carries the letter at position \<open>j mod 26\<close>.
\<close>

definition referenceLines :: "nat \<Rightarrow> img list \<Rightarrow> string list" where
  "referenceLines n ims =
     map (\<lambda>(j, im). imageReference [letters ! (j mod 26)] (altTextOf im)) (enumerate n ims)"

subsection \<open>The fallback chain in the words of the specification\<close>


definition contentTags :: "string list" where
  "contentTags =
     [''h1'', ''h2'', ''h3'', ''h4'', ''h5'', ''h6'', ''p'', ''article'', ''section'', ''main'',
      ''li'', ''td'', ''th'', ''dt'', ''dd'', ''figcaption'', ''blockquote'']"

definition contentClasses :: "string list" where
  "contentClasses = [''content'', ''article'', ''post'', ''entry'']"

definition spec_contentBearing :: "selector_engine \<Rightarrow> node \<Rightarrow> bool" where
  "spec_contentBearing engine n =
     (isElement n \<and>
      (list_ex (\<lambda>t. engine n (Tag t)) contentTags \<or>
       list_ex (\<lambda>c. engine n (HasClass c)) contentClasses))"







subsection \<open>The special-character signal in the words of the specification\<close>

text \<open>Letters and digits; the underscore is not among them.\<close>

definition isAlphanumeric :: "char \<Rightarrow> bool" where
  "isAlphanumeric c =
     (let n = (of_char c :: nat)
      in (48 \<le> n \<and> n \<le> 57) \<or> (65 \<le> n \<and> n \<le> 90) \<or> (97 \<le> n \<and> n \<le> 122))"

text \<open>The share of characters that are neither alphanumeric nor white space exceeds 30%.\<close>

definition spec_mostlySpecial :: "string \<Rightarrow> bool" where
  "spec_mostlySpecial trimmed =
     (10 * length (filter (\<lambda>c. \<not> isAlphanumeric c \<and> \<not> isSpace c) trimmed) > 3 * length trimmed)"

subsection \<open>Archiving runs\<close>

text \<open>The events that leave the promise as it is: the \<open>ENOENT\<close> warnings.\<close>

fun nonFatal :: "archive_event \<Rightarrow> bool" where
  "nonFatal (ArchiveWarning err) = (code err = ''ENOENT'')"
| "nonFatal e = False"

fun warningOf :: "archive_event \<Rightarrow> archiver_error" where
  "warningOf (ArchiveWarning err) = err"
| "warningOf (ArchiveErrorEvent err) = err"
| "warningOf (OutputClose n) = ArchiverError [] []"

section \<open>Example sites\<close>

definition slashJoin :: "string list \<Rightarrow> string" where
  "slashJoin ps = foldr (\<lambda>p r. if r = [] then p else p @ ''/'' @ r) ps []"

text \<open>
  A site of three pages. The home page shows a paragraph, an image whose download fails, an
  inline image and an image that downloads; it links to a page that answers 404, to a host
  that only contains the base domain, to a social host, to a subdomain and to a fragment.
\<close>

definition demoFetch :: "string \<Rightarrow> response" where
  "demoFetch u =
     (if u = ''http://example.com/'' then Response 200 (Some ''home'')
      else if u = ''http://example.com/about'' then Response 404 (Some ''missing'')
      else if u = ''http://blog.example.com/'' then Response 200 (Some ''blog'')
      else if u = ''http://example.com/ok.png'' then Response 200 (Some ''PNG'')
      else if u = ''http://example.com/x.png'' then Response 500 None
      else NetworkError)"

definition demoParse :: "string \<Rightarrow> document" where
  "demoParse html =
     (if html = ''home'' then
        Document ''Home'' (standardMatches True) (Element ''body'' [] [Element ''p'' [] [TextNode ''Hello'']])
          [Img ''x.png'' ''broken'', Img ''data:image/png;base64,AAAA'' ''inline'', Img ''ok.png'' []]
          [Anchor ''/about'', Anchor ''http://notexample.com/'', Anchor ''http://twitter.com/x'',
           Anchor ''http://blog.example.com/'', Anchor ''/#top'']
      else if html = ''blog'' then
        Document [] (standardMatches True) (Element ''body'' [] [Element ''h1'' [] [TextNode ''Blog of the example'']])
          [] [Anchor ''http://example.com/'']
      else Document [] (standardMatches True) (Element ''body'' [] []) [] [])"

definition demoResolve :: "string \<Rightarrow> string \<Rightarrow> string option" where
  "demoResolve rel base =
     (if rel = ''/about'' then Some ''http://example.com/about''
      else if rel = ''/#top'' then Some ''http://example.com/#top''
      else if rel = ''x.png'' then Some ''http://example.com/x.png''
      else if rel = ''ok.png'' then Some ''http://example.com/ok.png''
      else if rel \<in> set [''http://example.com/'', ''http://blog.example.com/'',
                          ''http://notexample.com/'', ''http://twitter.com/x'',
                          ''data:image/png;base64,AAAA'']
      then Some rel
      else None)"

definition demoHostname :: "string \<Rightarrow> string option" where
  "demoHostname u =
     (if startsWith u ''http://example.com/'' then Some ''example.com''
      else if startsWith u ''http://blog.example.com/'' then Some ''blog.example.com''
      else if startsWith u ''http://notexample.com/'' then Some ''notexample.com''
      else if startsWith u ''http://twitter.com/'' then Some ''twitter.com''
      else if startsWith u ''http://t.co/'' then Some ''t.co''
      else None)"

definition demoSite :: world where
  "demoSite =
     \<lparr>fetch = demoFetch, parseHTML = demoParse, url_resolve = demoResolve,
      url_hostname = demoHostname,
      extname = (\<lambda>u. if endsWith u ''.png'' then ''.png'' else []),
      sanitize = (\<lambda>name. name), path_join = slashJoin, cwd = ''/app'', now = ''1700000000000'',
      mkdir_ok = (\<lambda>p. True), writeFile_ok = (\<lambda>p. True),
      globalDocument = NoGlobalDocument,
      progressCallback = Some (\<lambda>call. True)\<rparr>"

definition demoStart :: string where
  "demoStart = ''http://example.com/''"

definition demoImagesDir :: string where
  "demoImagesDir = ''/app/tmp/example.com-crawl-1700000000000/images''"

text \<open>The URLs that following in-scope links from the start URL of the site reaches.\<close>

definition demoPages :: "string list" where
  "demoPages =
     [''http://example.com/'', ''http://example.com/about'', ''http://blog.example.com/'']"

text \<open>
  The same site behind a resolver that, like the URL constructor, takes every absolute
  \<open>http:\<close> URL to itself.
\<close>

definition openSite :: world where
  "openSite =
     demoSite\<lparr>url_resolve :=
       (\<lambda>rel base. if startsWith rel ''http://'' then Some rel else demoResolve rel base)\<rparr>"

text \<open>A crawl that starts on a link shortener whose only page links to itself.\<close>

definition shortenerSite :: world where
  "shortenerSite =
     demoSite\<lparr>
       fetch := (\<lambda>u. if u = ''http://t.co/'' then Response 200 (Some ''short'') else NetworkError),
       parseHTML := (\<lambda>html. Document ''Short'' (standardMatches True)
                               (Element ''body'' [] [Element ''p'' [] [TextNode ''Links'']])
                               [] [Anchor ''http://t.co/'']),
       url_resolve := (\<lambda>rel base. if rel = ''http://t.co/'' then Some rel else None)\<rparr>"

text \<open>A single page that shows the same picture 27 times.\<close>

definition gallerySite :: world where
  "gallerySite =
     demoSite\<lparr>
       fetch := (\<lambda>u. if u = ''http://example.com/'' then Response 200 (Some ''gallery'')
                      else NetworkError),
       parseHTML := (\<lambda>html. Document ''Gallery'' (standardMatches True)
                               (Element ''body'' [] [Element ''p'' [] [TextNode ''Pictures'']])
                               (replicate 27 (Img ''x.png'' ''pic'')) [])\<rparr>"





text \<open>The two lines of the code-likeness example.\<close>

definition codeLine :: string where
  "codeLine =
     ''const x = {'' @ [CHR 0x22] @ ''a'' @ [CHR 0x22] @ '':1,'' @ [CHR 0x22] @ ''b'' @ [CHR 0x22] @
     '':2,'' @ [CHR 0x22] @ ''c'' @ [CHR 0x22] @ '':3}''"

definition proseLine :: string where
  "proseLine = ''The quick brown fox jumps over the lazy dog.''"

definition underscoreLine :: string where
  "underscoreLine = ''__init__''"

section \<open>Properties\<close>

subsection \<open>Strings and frame properties\<close>

lemma startsWith_iff: "startsWith s t \<longleftrightarrow> (\<exists>r. s = t @ r)"
  by (induction s t rule: startsWith.induct) auto

lemma endsWith_iff: "endsWith s t \<longleftrightarrow> (\<exists>r. s = r @ t)"
proof -
  have "endsWith s t \<longleftrightarrow> (\<exists>r. rev s = rev t @ r)"
    by (simp add: endsWith_def startsWith_iff)
  also have "\<dots> \<longleftrightarrow> (\<exists>r. s = r @ t)"
  proof
    assume "\<exists>r. rev s = rev t @ r"
    then obtain r where "rev s = rev t @ r" ..
    then have "s = rev r @ t" by (metis rev_append rev_rev_ident)
    then show "\<exists>r. s = r @ t" ..
  next
    assume "\<exists>r. s = r @ t"
    then obtain r where "s = r @ t" ..
    then have "rev s = rev t @ rev r" by simp
    then show "\<exists>r. rev s = rev t @ r" ..
  qed
  finally show ?thesis .
qed

lemma downloadImage_queue [simp]: "queue (downloadImage w d u i s) = queue s"
  and downloadImage_visited [simp]: "visited (downloadImage w d u i s) = visited s"
  and downloadImage_contentLines [simp]: "contentLines (downloadImage w d u i s) = contentLines s"
  and downloadImage_imageCounter [simp]: "imageCounter (downloadImage w d u i s) = imageCounter s"
  and downloadImage_pagesProcessed [simp]: "pagesProcessed (downloadImage w d u i s) = pagesProcessed s"
  by (simp_all add: downloadImage_def Let_def split: response.split option.split)

lemma processImage_queue [simp]: "queue (processImage w d c s im) = queue s"
  and processImage_visited [simp]: "visited (processImage w d c s im) = visited s"
  and processImage_pagesProcessed [simp]: "pagesProcessed (processImage w d c s im) = pagesProcessed s"
  by (simp_all add: processImage_def Let_def split: option.split)

lemma processImages_queue [simp]: "queue (processImages w d c s imgs) = queue s"
  unfolding processImages_def by (induction imgs arbitrary: s) simp_all

lemma processImages_visited [simp]: "visited (processImages w d c s imgs) = visited s"
  unfolding processImages_def by (induction imgs arbitrary: s) simp_all

lemma processImages_pagesProcessed [simp]:
  "pagesProcessed (processImages w d c s imgs) = pagesProcessed s"
  unfolding processImages_def by (induction imgs arbitrary: s) simp_all

lemma processLink_visited [simp]: "visited (processLink w d c s l) = visited s"
  and processLink_contentLines [simp]: "contentLines (processLink w d c s l) = contentLines s"
  and processLink_imageCounter [simp]: "imageCounter (processLink w d c s l) = imageCounter s"
  and processLink_pagesProcessed [simp]: "pagesProcessed (processLink w d c s l) = pagesProcessed s"
  and processLink_files [simp]: "files (processLink w d c s l) = files s"
  by (simp_all add: processLink_def split: option.split)

lemma processLinks_visited [simp]: "visited (processLinks w d c s ls) = visited s"
  unfolding processLinks_def by (induction ls arbitrary: s) simp_all

lemma processLinks_contentLines [simp]: "contentLines (processLinks w d c s ls) = contentLines s"
  unfolding processLinks_def by (induction ls arbitrary: s) simp_all

lemma processLinks_imageCounter [simp]: "imageCounter (processLinks w d c s ls) = imageCounter s"
  unfolding processLinks_def by (induction ls arbitrary: s) simp_all

lemma processLinks_files [simp]: "files (processLinks w d c s ls) = files s"
  unfolding processLinks_def by (induction ls arbitrary: s) simp_all

lemma processLinks_pagesProcessed [simp]:
  "pagesProcessed (processLinks w d c s ls) = pagesProcessed s"
  unfolding processLinks_def by (induction ls arbitrary: s) simp_all


subsection \<open>The frontier invariant\<close>

lemma processLink_queue_cases:
  "queue (processLink w d c s l) = queue s \<or>
   (\<exists>linkUrl. url_resolve w (href l) c = Some linkUrl \<and> passesFilter w d linkUrl \<and>
      linkUrl \<notin> set (visited s) \<and> linkUrl \<notin> set (queue s) \<and>
      queue (processLink w d c s l) = queue s @ [linkUrl])"
  by (auto simp: processLink_def passesFilter_def split: option.split)

lemma processLink_empty_href: "href l = [] \<Longrightarrow> processLink w d c s l = s"
  by (simp add: processLink_def)

lemma processLink_frontier_inv:
  assumes target: "\<forall>u. href l \<noteq> [] \<longrightarrow> url_resolve w (href l) c = Some u \<longrightarrow>
                       passesFilter w d u \<longrightarrow> u \<in> U"
    and inv: "frontier_inv U s"
  shows "frontier_inv U (processLink w d c s l)"
proof (cases "href l = []")
  case True
  with inv show ?thesis by (simp add: processLink_empty_href)
next
  case False
  from processLink_queue_cases [of w d c s l]
  show ?thesis
  proof
    assume "queue (processLink w d c s l) = queue s"
    with inv show ?thesis by (simp add: frontier_inv_def)
  next
    assume "\<exists>linkUrl. url_resolve w (href l) c = Some linkUrl \<and> passesFilter w d linkUrl \<and>
      linkUrl \<notin> set (visited s) \<and> linkUrl \<notin> set (queue s) \<and>
      queue (processLink w d c s l) = queue s @ [linkUrl]"
    then obtain linkUrl where r: "url_resolve w (href l) c = Some linkUrl"
      and p: "passesFilter w d linkUrl"
      and nv: "linkUrl \<notin> set (visited s)" and nq: "linkUrl \<notin> set (queue s)"
      and q: "queue (processLink w d c s l) = queue s @ [linkUrl]"
      by blast
    from target False r p have "linkUrl \<in> U" by blast
    with inv nv nq q show ?thesis by (auto simp: frontier_inv_def)
  qed
qed

lemma processLinks_frontier_inv:
  "\<forall>l \<in> set ls. \<forall>u. href l \<noteq> [] \<longrightarrow> url_resolve w (href l) c = Some u \<longrightarrow>
       passesFilter w d u \<longrightarrow> u \<in> U \<Longrightarrow>
   frontier_inv U s \<Longrightarrow> frontier_inv U (processLinks w d c s ls)"
  unfolding processLinks_def
proof (induction ls arbitrary: s)
  case Nil
  then show ?case by simp
next
  case (Cons l ls)
  from Cons.prems(1)
  have here: "\<forall>u. href l \<noteq> [] \<longrightarrow> url_resolve w (href l) c = Some u \<longrightarrow>
                  passesFilter w d u \<longrightarrow> u \<in> U"
    and later: "\<forall>l \<in> set ls. \<forall>u. href l \<noteq> [] \<longrightarrow> url_resolve w (href l) c = Some u \<longrightarrow>
                  passesFilter w d u \<longrightarrow> u \<in> U"
    by simp_all
  from processLink_frontier_inv [OF here Cons.prems(2)]
  have "frontier_inv U (processLink w d c s l)" .
  from Cons.IH [OF later this] show ?case by simp
qed

lemma frontier_inv_cong:
  "queue s' = queue s \<Longrightarrow> visited s' = visited s \<Longrightarrow> frontier_inv U s' = frontier_inv U s"
  by (simp add: frontier_inv_def)

lemma processPage_Inl:
  "extractCleanContent (globalDocument w) (selectorEngine doc) (body doc) = Inl e \<Longrightarrow>
   processPage w d i c doc s = s\<lparr>contentLines := contentLines s @ pageHeader doc c\<rparr>"
  by (simp add: processPage_def pageHeader_def)

lemma processPage_Inr:
  "extractCleanContent (globalDocument w) (selectorEngine doc) (body doc) = Inr cleanText \<Longrightarrow>
   processPage w d i c doc s =
     (processLinks w d c
        (processImages w i c (s\<lparr>contentLines := contentLines s @ pageHeader doc c @ [cleanText]\<rparr>)
           (images doc))
        (links doc))
     \<lparr>pagesProcessed := pagesProcessed s + 1\<rparr>"
  by (simp add: processPage_def pageHeader_def Let_def)

lemma processPage_visited [simp]: "visited (processPage w d i c doc s) = visited s"
  by (cases "extractCleanContent (globalDocument w) (selectorEngine doc) (body doc)")
     (simp_all add: processPage_Inl processPage_Inr)

lemma processPage_frontier_inv:
  assumes closed: "\<forall>l \<in> set (links doc). \<forall>u. href l \<noteq> [] \<longrightarrow>
                       url_resolve w (href l) c = Some u \<longrightarrow> passesFilter w d u \<longrightarrow> u \<in> U"
    and inv: "frontier_inv U s"
  shows "frontier_inv U (processPage w d i c doc s)"
proof (cases "extractCleanContent (globalDocument w) (selectorEngine doc) (body doc)")
  case (Inl e)
  have "frontier_inv U (processPage w d i c doc s) = frontier_inv U s"
    by (rule frontier_inv_cong) (simp_all add: processPage_Inl [OF Inl])
  with inv show ?thesis by simp
next
  case (Inr cleanText)
  define s1 where "s1 = processImages w i c
    (s\<lparr>contentLines := contentLines s @ pageHeader doc c @ [cleanText]\<rparr>) (images doc)"
  have "frontier_inv U s1 = frontier_inv U s"
    by (rule frontier_inv_cong) (simp_all add: s1_def)
  with inv have "frontier_inv U s1" by simp
  from processLinks_frontier_inv [OF closed this]
  have "frontier_inv U (processLinks w d c s1 (links doc))" .
  moreover have "frontier_inv U (processPage w d i c doc s) =
      frontier_inv U (processLinks w d c s1 (links doc))"
    by (rule frontier_inv_cong) (simp_all add: processPage_Inr [OF Inr] s1_def)
  ultimately show ?thesis by simp
qed

lemma loadPage_pageAt: "loadPage w s u = Some doc \<Longrightarrow> pageAt w u = Some doc"
  by (simp add: loadPage_def pageAt_def split: if_splits)

lemma inScopeLinks_member:
  assumes "pageAt w base = Some doc" and "l \<in> set (links doc)" and "href l \<noteq> []"
    and "url_resolve w (href l) base = Some u" and "passesFilter w d u"
  shows "u \<in> set (inScopeLinks w d base)"
  using assms by (force simp: inScopeLinks_def)

lemma inScopeLinks_passesFilter: "u \<in> set (inScopeLinks w d base) \<Longrightarrow> passesFilter w d u"
  by (auto simp: inScopeLinks_def split: option.splits)

lemma crawlIteration_frontier_inv:
  assumes closed: "\<forall>base \<in> U. set (inScopeLinks w d base) \<subseteq> U"
    and inv: "frontier_inv U s"
  shows "frontier_inv U (crawlIteration w d i s)"
proof (cases "queue s")
  case Nil
  with inv show ?thesis by (simp add: crawlIteration_def)
next
  case (Cons currentUrl rest)
  from inv Cons have nv: "currentUrl \<notin> set (visited s)"
    by (auto simp: frontier_inv_def)
  from inv Cons have here: "currentUrl \<in> U"
    by (auto simp: frontier_inv_def)
  define s1 where "s1 = s\<lparr>queue := rest, visited := set_add currentUrl (visited s)\<rparr>"
  from inv Cons nv have inv1: "frontier_inv U s1"
    by (auto simp: frontier_inv_def s1_def set_add_def)
  show ?thesis
  proof (cases "loadPage w s1 currentUrl")
    case None
    with Cons nv inv1 show ?thesis
      by (simp add: crawlIteration_def Let_def s1_def)
  next
    case (Some doc)
    from Some have page: "pageAt w currentUrl = Some doc"
      by (rule loadPage_pageAt)
    have "\<forall>l \<in> set (links doc). \<forall>u. href l \<noteq> [] \<longrightarrow>
            url_resolve w (href l) currentUrl = Some u \<longrightarrow> passesFilter w d u \<longrightarrow> u \<in> U"
      using closed here inScopeLinks_member [OF page] by blast
    from processPage_frontier_inv [OF this inv1]
    have "frontier_inv U (processPage w d i currentUrl doc s1)" .
    with Cons nv Some show ?thesis
      by (simp add: crawlIteration_def Let_def s1_def)
  qed
qed

lemma crawlSteps_Suc_right:
  "crawlSteps w d i (Suc k) s = crawlIteration w d i (crawlSteps w d i k s)"
proof (induction k arbitrary: s)
  case 0
  show ?case by (simp add: crawlIteration_def)
next
  case (Suc k)
  show ?case
  proof (cases "queue s = []")
    case True
    then show ?thesis by (simp add: crawlIteration_def)
  next
    case False
    have "crawlSteps w d i (Suc (Suc k)) s = crawlSteps w d i (Suc k) (crawlIteration w d i s)"
      using False by simp
    also have "\<dots> = crawlIteration w d i (crawlSteps w d i k (crawlIteration w d i s))"
      by (rule Suc.IH)
    also have "crawlSteps w d i k (crawlIteration w d i s) = crawlSteps w d i (Suc k) s"
      using False by simp
    finally show ?thesis .
  qed
qed

lemma crawlSteps_frontier_inv:
  assumes closed: "\<forall>base \<in> U. set (inScopeLinks w d base) \<subseteq> U"
    and inv: "frontier_inv U s"
  shows "frontier_inv U (crawlSteps w d i k s)"
proof (induction k)
  case 0
  from inv show ?case by simp
next
  case (Suc k)
  from crawlIteration_frontier_inv [OF closed Suc.IH]
  show ?case by (simp only: crawlSteps_Suc_right)
qed

lemma initial_frontier_inv: "startUrl \<in> U \<Longrightarrow> frontier_inv U (initial_state startUrl)"
  by (simp add: frontier_inv_def initial_state_def)

lemma crawlLoop_crawlSteps:
  "crawlLoop w d i fuel s =
     (if queue (crawlSteps w d i fuel s) = [] then Some (crawlSteps w d i fuel s) else None)"
proof (induction fuel arbitrary: s)
  case 0
  show ?case by simp
next
  case (Suc n)
  show ?case
  proof (cases "queue s = []")
    case True
    then show ?thesis by simp
  next
    case False
    then show ?thesis using Suc.IH [of "crawlIteration w d i s"] by simp
  qed
qed

subsection \<open>Rounds of the loop\<close>

lemma crawlIteration_Nil: "queue s = [] \<Longrightarrow> crawlIteration w d i s = s"
  by (simp add: crawlIteration_def)

lemma crawlIteration_skip:
  "queue s = u # rest \<Longrightarrow> u \<in> set (visited s) \<Longrightarrow>
   crawlIteration w d i s = s\<lparr>queue := rest\<rparr>"
  by (simp add: crawlIteration_def)

lemma crawlIteration_failed:
  "queue s = u # rest \<Longrightarrow> u \<notin> set (visited s) \<Longrightarrow>
   loadPage w (s\<lparr>queue := rest, visited := visited s @ [u]\<rparr>) u = None \<Longrightarrow>
   crawlIteration w d i s = s\<lparr>queue := rest, visited := visited s @ [u]\<rparr>"
  by (simp add: crawlIteration_def set_add_def)

lemma crawlIteration_page:
  "queue s = u # rest \<Longrightarrow> u \<notin> set (visited s) \<Longrightarrow>
   loadPage w (s\<lparr>queue := rest, visited := visited s @ [u]\<rparr>) u = Some doc \<Longrightarrow>
   crawlIteration w d i s =
     processPage w d i u doc (s\<lparr>queue := rest, visited := visited s @ [u]\<rparr>)"
  by (simp add: crawlIteration_def set_add_def)

lemma loadPage_not_ok:
  "fetch w u = Response status content \<Longrightarrow> \<not> ok status \<Longrightarrow> loadPage w s u = None"
  by (simp add: loadPage_def)

lemma loadPage_NetworkError: "fetch w u = NetworkError \<Longrightarrow> loadPage w s u = None"
  by (simp add: loadPage_def)

lemma crawlIteration_visited:
  "queue s = u # rest \<Longrightarrow> u \<notin> set (visited s) \<Longrightarrow>
   visited (crawlIteration w d i s) = visited s @ [u]"
  by (cases "loadPage w (s\<lparr>queue := rest, visited := visited s @ [u]\<rparr>) u")
     (simp_all add: crawlIteration_failed crawlIteration_page)

lemma crawlIteration_visited_mono: "set (visited s) \<subseteq> set (visited (crawlIteration w d i s))"
proof (cases "queue s")
  case Nil
  then show ?thesis by (simp add: crawlIteration_Nil)
next
  case (Cons u rest)
  show ?thesis
  proof (cases "u \<in> set (visited s)")
    case True
    with Cons show ?thesis by (simp add: crawlIteration_skip)
  next
    case False
    with Cons show ?thesis by (auto simp: crawlIteration_visited)
  qed
qed

lemma crawlSteps_visited_mono:
  "set (visited (crawlSteps w d i k s)) \<subseteq> set (visited (crawlSteps w d i (k + j) s))"
proof (induction j)
  case 0
  show ?case by simp
next
  case (Suc j)
  have "set (visited (crawlSteps w d i (k + j) s))
          \<subseteq> set (visited (crawlIteration w d i (crawlSteps w d i (k + j) s)))"
    by (rule crawlIteration_visited_mono)
  with Suc have "set (visited (crawlSteps w d i k s))
          \<subseteq> set (visited (crawlIteration w d i (crawlSteps w d i (k + j) s)))"
    by (rule subset_trans)
  then show ?case by (simp only: add_Suc_right crawlSteps_Suc_right)
qed

lemma crawlSteps_stuck:
  "queue (crawlSteps w d i k s) = [] \<Longrightarrow> crawlSteps w d i (k + j) s = crawlSteps w d i k s"
proof (induction j)
  case 0
  show ?case by simp
next
  case (Suc j)
  then show ?case by (simp only: add_Suc_right crawlSteps_Suc_right) (simp add: crawlIteration_Nil)
qed

subsection \<open>Termination on a finite site\<close>

lemma frontier_inv_card:
  assumes "finite U" and "frontier_inv U s"
  shows "length (visited s) + length (queue s) \<le> card U"
proof -
  from assms(2) have d: "distinct (visited s)" "distinct (queue s)"
    and disj: "set (queue s) \<inter> set (visited s) = {}"
    and sub: "set (queue s) \<union> set (visited s) \<subseteq> U"
    by (simp_all add: frontier_inv_def)
  have "length (visited s) + length (queue s) = card (set (visited s)) + card (set (queue s))"
    using d by (simp add: distinct_card)
  also have "\<dots> = card (set (queue s) \<union> set (visited s))"
    using disj by (simp add: card_Un_disjoint)
  also have "\<dots> \<le> card U"
    using sub assms(1) by (rule card_mono [rotated])
  finally show ?thesis .
qed

lemma crawlLoop_terminates:
  assumes fin: "finite U"
    and closed: "\<forall>base \<in> U. set (inScopeLinks w d base) \<subseteq> U"
  shows "frontier_inv U s \<Longrightarrow> card U \<le> fuel + length (visited s) \<Longrightarrow>
         \<exists>s'. crawlLoop w d i fuel s = Some s'"
proof (induction fuel arbitrary: s)
  case 0
  from frontier_inv_card [OF fin "0.prems"(1)] "0.prems"(2)
  have "length (queue s) = 0" by linarith
  then show ?case by simp
next
  case (Suc n)
  show ?case
  proof (cases "queue s")
    case Nil
    then show ?thesis by simp
  next
    case (Cons u rest)
    from Suc.prems(1) Cons have nv: "u \<notin> set (visited s)"
      by (auto simp: frontier_inv_def)
    have inv': "frontier_inv U (crawlIteration w d i s)"
      by (rule crawlIteration_frontier_inv [OF closed Suc.prems(1)])
    have "length (visited (crawlIteration w d i s)) = Suc (length (visited s))"
      using Cons nv by (simp add: crawlIteration_visited)
    with Suc.prems(2) have "card U \<le> n + length (visited (crawlIteration w d i s))"
      by simp
    from Suc.IH [OF inv' this] Cons show ?thesis by simp
  qed
qed

subsection \<open>Domain filter\<close>

lemma crawlSteps_passesFilter:
  assumes mem: "u \<in> set (queue (crawlSteps w domain i k (initial_state startUrl))) \<union>
                  set (visited (crawlSteps w domain i k (initial_state startUrl)))"
  shows "u = startUrl \<or> passesFilter w domain u"
proof -
  define U where "U = insert startUrl {u. passesFilter w domain u}"
  have closed: "\<forall>base \<in> U. set (inScopeLinks w domain base) \<subseteq> U"
    by (auto simp: U_def dest: inScopeLinks_passesFilter)
  have "frontier_inv U (initial_state startUrl)"
    by (rule initial_frontier_inv) (simp add: U_def)
  from crawlSteps_frontier_inv [OF closed this, of i k] mem
  have "u \<in> U" by (auto simp: frontier_inv_def)
  then show ?thesis by (simp add: U_def)
qed

text \<open>
  C2. A link is pushed on the queue only when its host is the base domain or ends with a dot
  followed by the base domain. So in every state that a crawl reaches, every URL of the queue
  and of \<open>visited\<close> has such a host; a host that only contains the base domain, such as
  \<open>notexample.com\<close> for the base domain \<open>example.com\<close>, is never accepted.
\<close>

theorem C2_scope_is_exact_host_or_subdomain:
  "(queue (processLink w domain currentUrl s link) = queue s \<or>
    (\<exists>linkUrl h. url_resolve w (href link) currentUrl = Some linkUrl \<and>
        url_hostname w linkUrl = Some h \<and>
        (h = domain \<or> (\<exists>sub. h = sub @ ''.'' @ domain)) \<and>
        queue (processLink w domain currentUrl s link) = queue s @ [linkUrl])) \<and>
   (url_hostname w startUrl = Some domain \<longrightarrow>
    (\<forall>u \<in> set (queue (crawlSteps w domain imagesDir k (initial_state startUrl))) \<union>
           set (visited (crawlSteps w domain imagesDir k (initial_state startUrl))).
       \<exists>h. url_hostname w u = Some h \<and> (h = domain \<or> (\<exists>sub. h = sub @ ''.'' @ domain))))"
proof (intro conjI impI ballI)
  from processLink_queue_cases [of w domain currentUrl s link]
  show "queue (processLink w domain currentUrl s link) = queue s \<or>
    (\<exists>linkUrl h. url_resolve w (href link) currentUrl = Some linkUrl \<and>
        url_hostname w linkUrl = Some h \<and>
        (h = domain \<or> (\<exists>sub. h = sub @ ''.'' @ domain)) \<and>
        queue (processLink w domain currentUrl s link) = queue s @ [linkUrl])"
    by (auto simp: passesFilter_def endsWith_iff split: option.splits)
next
  fix u
  assume host: "url_hostname w startUrl = Some domain"
    and mem: "u \<in> set (queue (crawlSteps w domain imagesDir k (initial_state startUrl))) \<union>
                  set (visited (crawlSteps w domain imagesDir k (initial_state startUrl)))"
  from crawlSteps_passesFilter [OF mem]
  show "\<exists>h. url_hostname w u = Some h \<and> (h = domain \<or> (\<exists>sub. h = sub @ ''.'' @ domain))"
    using host by (auto simp: passesFilter_def endsWith_iff split: option.splits)
qed

theorem C2_scope_witness:
  "url_hostname demoSite demoStart = Some ''example.com'' \<and>
   queue (processLink demoSite ''example.com'' demoStart (initial_state demoStart)
            (Anchor ''http://notexample.com/'')) = queue (initial_state demoStart) \<and>
   ''http://blog.example.com/'' \<in>
     set (queue (crawlSteps demoSite ''example.com'' demoImagesDir 1 (initial_state demoStart))) \<and>
   (\<exists>h. url_hostname demoSite ''http://blog.example.com/'' = Some h \<and>
        (h = ''example.com'' \<or> (\<exists>sub. h = sub @ ''.'' @ ''example.com'')))"
proof -
  have host: "url_hostname demoSite demoStart = Some ''example.com''"
    by code_simp
  have res: "url_resolve demoSite (href (Anchor ''http://notexample.com/'')) demoStart =
               Some ''http://notexample.com/''"
    by code_simp
  have other: "url_hostname demoSite ''http://notexample.com/'' = Some ''notexample.com''"
    by code_simp
  have "\<not> endsWith ''notexample.com'' (''.'' @ ''example.com'')"
    by code_simp
  with endsWith_iff [of "''notexample.com''" "''.'' @ ''example.com''"]
  have nosub: "\<not> (\<exists>sub. ''notexample.com'' = sub @ ''.'' @ ''example.com'')"
    by blast
  have neq: "''notexample.com'' \<noteq> ''example.com''"
    by simp
  note inst = C2_scope_is_exact_host_or_subdomain
         [of demoSite "''example.com''" demoStart "initial_state demoStart"
             "Anchor ''http://notexample.com/''" demoStart demoImagesDir 1]
  from inst res other nosub neq
  have link: "queue (processLink demoSite ''example.com'' demoStart (initial_state demoStart)
            (Anchor ''http://notexample.com/'')) = queue (initial_state demoStart)"
    by auto
  have mem: "''http://blog.example.com/'' \<in>
     set (queue (crawlSteps demoSite ''example.com'' demoImagesDir 1 (initial_state demoStart)))"
    by code_simp
  from inst host mem
  have "\<exists>h. url_hostname demoSite ''http://blog.example.com/'' = Some h \<and>
        (h = ''example.com'' \<or> (\<exists>sub. h = sub @ ''.'' @ ''example.com''))"
    by blast
  with host link mem show ?thesis by blast
qed

lemma isSocialMediaHost_iff:
  "isSocialMediaHost h \<longleftrightarrow> (\<exists>sd \<in> set socialMediaDomains. h = sd \<or> (\<exists>p. h = p @ sd))"
  by (auto simp: isSocialMediaHost_def list_ex_iff endsWith_iff)

lemma processLink_social:
  "url_resolve w (href link) c = Some linkUrl \<Longrightarrow> url_hostname w linkUrl = Some h \<Longrightarrow>
   isSocialMediaHost h \<Longrightarrow> processLink w d c s link = s"
  by (simp add: processLink_def isExternalOrSocialMediaLink_def)

text \<open>
  C3, as the code has it. A link whose host equals or ends with an entry of the denylist
  leaves the state as it is, whatever the base domain. So in every state that a crawl
  reaches, a URL of the queue or of \<open>visited\<close> is the start URL, which is seeded without
  the filter, or has a host off the denylist.
\<close>

theorem C3_denylisted_link_never_enqueued:
  "(url_resolve w (href link) currentUrl = Some linkUrl \<longrightarrow>
    url_hostname w linkUrl = Some h \<longrightarrow>
    (\<exists>sd \<in> set socialMediaDomains. h = sd \<or> (\<exists>p. h = p @ sd)) \<longrightarrow>
    processLink w domain currentUrl s link = s) \<and>
   (\<forall>u \<in> set (queue (crawlSteps w domain imagesDir k (initial_state startUrl))) \<union>
          set (visited (crawlSteps w domain imagesDir k (initial_state startUrl))).
      u = startUrl \<or>
      (\<exists>h'. url_hostname w u = Some h' \<and>
            \<not> (\<exists>sd \<in> set socialMediaDomains. h' = sd \<or> (\<exists>p. h' = p @ sd))))"
proof (intro conjI impI ballI)
  assume "url_resolve w (href link) currentUrl = Some linkUrl"
    and "url_hostname w linkUrl = Some h"
    and "\<exists>sd \<in> set socialMediaDomains. h = sd \<or> (\<exists>p. h = p @ sd)"
  then show "processLink w domain currentUrl s link = s"
    by (simp add: processLink_social isSocialMediaHost_iff)
next
  fix u
  assume "u \<in> set (queue (crawlSteps w domain imagesDir k (initial_state startUrl))) \<union>
              set (visited (crawlSteps w domain imagesDir k (initial_state startUrl)))"
  from crawlSteps_passesFilter [OF this]
  have "u = startUrl \<or> passesFilter w domain u" .
  then show "u = startUrl \<or>
      (\<exists>h'. url_hostname w u = Some h' \<and>
            \<not> (\<exists>sd \<in> set socialMediaDomains. h' = sd \<or> (\<exists>p. h' = p @ sd)))"
  proof
    assume "u = startUrl"
    then show ?thesis ..
  next
    assume "passesFilter w domain u"
    then obtain h' where "url_hostname w u = Some h'"
      and "\<not> isExternalOrSocialMediaLink h' domain"
      by (auto simp: passesFilter_def split: option.splits)
    then have "url_hostname w u = Some h' \<and> \<not> isSocialMediaHost h'"
      by (simp add: isExternalOrSocialMediaLink_def split: if_splits)
    then show ?thesis
      by (auto simp: isSocialMediaHost_iff)
  qed
qed

theorem C3_denylisted_link_witness:
  "processLink demoSite ''example.com'' demoStart (initial_state demoStart)
     (Anchor ''http://twitter.com/x'') = initial_state demoStart \<and>
   ''http://blog.example.com/'' \<in>
     set (queue (crawlSteps demoSite ''example.com'' demoImagesDir 1 (initial_state demoStart))) \<and>
   (\<exists>h'. url_hostname demoSite ''http://blog.example.com/'' = Some h' \<and>
         \<not> (\<exists>sd \<in> set socialMediaDomains. h' = sd \<or> (\<exists>p. h' = p @ sd)))"
proof -
  have res: "url_resolve demoSite (href (Anchor ''http://twitter.com/x'')) demoStart =
               Some ''http://twitter.com/x''"
    by code_simp
  have host: "url_hostname demoSite ''http://twitter.com/x'' = Some ''twitter.com''"
    by code_simp
  have "''twitter.com'' \<in> set socialMediaDomains"
    by code_simp
  then have deny: "\<exists>sd \<in> set socialMediaDomains. ''twitter.com'' = sd \<or> (\<exists>p. ''twitter.com'' = p @ sd)"
    by blast
  have mem: "''http://blog.example.com/'' \<in>
     set (queue (crawlSteps demoSite ''example.com'' demoImagesDir 1 (initial_state demoStart)))"
    by code_simp
  have ne: "''http://blog.example.com/'' \<noteq> demoStart"
    by (simp add: demoStart_def)
  note inst = C3_denylisted_link_never_enqueued
    [of demoSite "Anchor ''http://twitter.com/x''" demoStart "''http://twitter.com/x''"
        "''twitter.com''" "''example.com''" "initial_state demoStart" demoImagesDir 1 demoStart]
  from inst res host deny
  have "processLink demoSite ''example.com'' demoStart (initial_state demoStart)
     (Anchor ''http://twitter.com/x'') = initial_state demoStart"
    by blast
  moreover from inst mem ne
  have "\<exists>h'. url_hostname demoSite ''http://blog.example.com/'' = Some h' \<and>
         \<not> (\<exists>sd \<in> set socialMediaDomains. h' = sd \<or> (\<exists>p. h' = p @ sd))"
    by blast
  ultimately show ?thesis using mem by blast
qed

text \<open>
  The claim as stated fails for a crawl that starts on a denylisted host: the only page of
  \<open>shortenerSite\<close> links to itself, the host \<open>t.co\<close> of that link is on the denylist, and
  the link's URL is in \<open>visited\<close> after the first round.
\<close>

theorem C3_denylisted_url_in_visited:
  "Anchor ''http://t.co/'' \<in> set (links (parseHTML shortenerSite ''short'')) \<and>
   url_resolve shortenerSite (href (Anchor ''http://t.co/'')) ''http://t.co/'' = Some ''http://t.co/'' \<and>
   url_hostname shortenerSite ''http://t.co/'' = Some ''t.co'' \<and>
   ''t.co'' \<in> set socialMediaDomains \<and>
   ''http://t.co/'' \<in> set (visited (crawlSteps shortenerSite ''t.co''
        (imagesDirOf shortenerSite ''t.co'') 1 (initial_state ''http://t.co/'')))"
  by code_simp

subsection \<open>Deduplication\<close>

text \<open>
  C9. At the head of every round of the loop the queue holds no URL twice and no URL of
  \<open>visited\<close>. So the URL at the front of the queue is never a visited one: the skip at
  dequeue time does not fire, and the round appends that URL to \<open>visited\<close>.
\<close>

theorem C9_queue_distinct_and_unvisited:
  "distinct (queue (crawlSteps w domain imagesDir k (initial_state startUrl))) \<and>
   set (queue (crawlSteps w domain imagesDir k (initial_state startUrl))) \<inter>
     set (visited (crawlSteps w domain imagesDir k (initial_state startUrl))) = {} \<and>
   (\<forall>u rest. queue (crawlSteps w domain imagesDir k (initial_state startUrl)) = u # rest \<longrightarrow>
      u \<notin> set (visited (crawlSteps w domain imagesDir k (initial_state startUrl))) \<and>
      visited (crawlSteps w domain imagesDir (Suc k) (initial_state startUrl)) =
        visited (crawlSteps w domain imagesDir k (initial_state startUrl)) @ [u])"
proof -
  define S where "S = crawlSteps w domain imagesDir k (initial_state startUrl)"
  have closed: "\<forall>base \<in> UNIV. set (inScopeLinks w domain base) \<subseteq> UNIV"
    by simp
  have "frontier_inv UNIV (initial_state startUrl)"
    by (rule initial_frontier_inv) simp
  from crawlSteps_frontier_inv [OF closed this, of imagesDir k]
  have inv: "frontier_inv UNIV S" by (simp add: S_def)
  then have d: "distinct (queue S)" and disj: "set (queue S) \<inter> set (visited S) = {}"
    by (simp_all add: frontier_inv_def)
  have front: "u \<notin> set (visited S) \<and>
      visited (crawlSteps w domain imagesDir (Suc k) (initial_state startUrl)) = visited S @ [u]"
    if q: "queue S = u # rest" for u rest
  proof -
    from disj q have nv: "u \<notin> set (visited S)" by auto
    have "visited (crawlIteration w domain imagesDir S) = visited S @ [u]"
      by (rule crawlIteration_visited [OF q nv])
    with nv show ?thesis by (simp only: crawlSteps_Suc_right S_def [symmetric]) simp
  qed
  from d disj front show ?thesis unfolding S_def by blast
qed

theorem C9_queue_witness:
  "queue (crawlSteps demoSite ''example.com'' demoImagesDir 1 (initial_state demoStart)) =
     [''http://example.com/about'', ''http://blog.example.com/''] \<and>
   distinct (queue (crawlSteps demoSite ''example.com'' demoImagesDir 1 (initial_state demoStart))) \<and>
   ''http://example.com/about'' \<notin>
     set (visited (crawlSteps demoSite ''example.com'' demoImagesDir 1 (initial_state demoStart))) \<and>
   visited (crawlSteps demoSite ''example.com'' demoImagesDir (Suc 1) (initial_state demoStart)) =
     visited (crawlSteps demoSite ''example.com'' demoImagesDir 1 (initial_state demoStart)) @
       [''http://example.com/about'']"
proof -
  have q: "queue (crawlSteps demoSite ''example.com'' demoImagesDir 1 (initial_state demoStart)) =
     [''http://example.com/about'', ''http://blog.example.com/'']"
    by code_simp
  from C9_queue_distinct_and_unvisited [of demoSite "''example.com''" demoImagesDir 1 demoStart] q
  show ?thesis by blast
qed

subsection \<open>Failed page fetches\<close>

lemma crawlWebsite_Success:
  assumes "url_hostname w startUrl = Some domain"
    and "mkdir_ok w (outputDirOf w domain)" and "mkdir_ok w (imagesDirOf w domain)"
    and "writeFile_ok w (outputFileOf w domain)"
    and "case progressCallback w of None \<Rightarrow> True | Some callback \<Rightarrow> callback Complete"
    and "crawlLoop w domain (imagesDirOf w domain) fuel (initial_state startUrl) = Some final"
  shows "crawlWebsite w fuel startUrl =
           Some (Success (outputDirOf w domain) (length (visited final)) (imageCounter final),
                 files final @ [(outputFileOf w domain, join_lines (contentLines final))])"
  using assms by (simp add: crawlWebsite_def)

text \<open>
  C1, as the code has it. Let the start URL lie in a finite set \<open>U\<close> of URLs that is closed
  under the in-scope links of its pages: whatever a link on the page of a URL of \<open>U\<close> leads
  to, if it passes the filter, is in \<open>U\<close> again. Let a round dequeue a URL whose fetch
  answers with a status outside 200..299, such as 404. The round skips the page: it moves
  the URL from the queue to \<open>visited\<close> and changes nothing else. The crawl returns, with
  \<open>success: true\<close> when the two directories and the content file can be written and the
  progress callback, if there is one, returns from its completion call; \<open>pagesVisited\<close> is
  the size of \<open>visited\<close>, which holds the failed URL once, so the failed page is counted.
\<close>

theorem C1_failed_page_skipped_but_counted:
  assumes fin: "finite U"
    and start: "startUrl \<in> U"
    and closed: "\<forall>base \<in> U. set (inScopeLinks w domain base) \<subseteq> U"
    and fuel: "card U \<le> fuel"
    and host: "url_hostname w startUrl = Some domain"
    and dir1: "mkdir_ok w (outputDirOf w domain)"
    and dir2: "mkdir_ok w (imagesDirOf w domain)"
    and out: "writeFile_ok w (outputFileOf w domain)"
    and complete: "case progressCallback w of None \<Rightarrow> True | Some callback \<Rightarrow> callback Complete"
    and deq: "queue (crawlSteps w domain (imagesDirOf w domain) k (initial_state startUrl)) = u # rest"
    and resp: "fetch w u = Response status content"
    and bad: "\<not> ok status"
  shows "crawlSteps w domain (imagesDirOf w domain) (Suc k) (initial_state startUrl) =
           (crawlSteps w domain (imagesDirOf w domain) k (initial_state startUrl))
             \<lparr>queue := rest,
              visited := visited (crawlSteps w domain (imagesDirOf w domain) k
                                    (initial_state startUrl)) @ [u]\<rparr> \<and>
         crawlWebsite w fuel startUrl =
           Some (Success (outputDirOf w domain)
                   (length (visited (crawlSteps w domain (imagesDirOf w domain) fuel
                                       (initial_state startUrl))))
                   (imageCounter (crawlSteps w domain (imagesDirOf w domain) fuel
                                    (initial_state startUrl))),
                 files (crawlSteps w domain (imagesDirOf w domain) fuel (initial_state startUrl)) @
                   [(outputFileOf w domain,
                     join_lines (contentLines (crawlSteps w domain (imagesDirOf w domain) fuel
                                                 (initial_state startUrl))))]) \<and>
         u \<in> set (visited (crawlSteps w domain (imagesDirOf w domain) fuel (initial_state startUrl))) \<and>
         distinct (visited (crawlSteps w domain (imagesDirOf w domain) fuel (initial_state startUrl)))"
proof -
  define i where "i = imagesDirOf w domain"
  define S where "S = crawlSteps w domain i k (initial_state startUrl)"
  define F where "F = crawlSteps w domain i fuel (initial_state startUrl)"
  have inv0: "frontier_inv U (initial_state startUrl)"
    by (rule initial_frontier_inv [OF start])
  have invS: "frontier_inv U S"
    unfolding S_def by (rule crawlSteps_frontier_inv [OF closed inv0])
  have invF: "frontier_inv U F"
    unfolding F_def by (rule crawlSteps_frontier_inv [OF closed inv0])
  have q: "queue S = u # rest"
    using deq by (simp add: S_def i_def)
  from invS q have nv: "u \<notin> set (visited S)"
    by (auto simp: frontier_inv_def)
  have "loadPage w (S\<lparr>queue := rest, visited := visited S @ [u]\<rparr>) u = None"
    by (rule loadPage_not_ok [OF resp bad])
  from crawlIteration_failed [OF q nv this]
  have step: "crawlSteps w domain i (Suc k) (initial_state startUrl) =
                S\<lparr>queue := rest, visited := visited S @ [u]\<rparr>"
    by (simp only: crawlSteps_Suc_right S_def)
  have "card U \<le> fuel + length (visited (initial_state startUrl))"
    using fuel by simp
  from crawlLoop_terminates [OF fin closed inv0 this]
  obtain s' where loop: "crawlLoop w domain i fuel (initial_state startUrl) = Some s'"
    by blast
  then have empty: "queue F = []" and s': "s' = F"
    by (simp_all add: crawlLoop_crawlSteps F_def split: if_splits)
  have result: "crawlWebsite w fuel startUrl =
           Some (Success (outputDirOf w domain) (length (visited F)) (imageCounter F),
                 files F @ [(outputFileOf w domain, join_lines (contentLines F))])"
    using loop s' by (intro crawlWebsite_Success [OF host dir1 dir2 out complete]) (simp add: i_def)
  have "Suc k \<le> fuel"
  proof (rule ccontr)
    assume "\<not> Suc k \<le> fuel"
    then have "k = fuel + (k - fuel)" by simp
    then have "S = crawlSteps w domain i (fuel + (k - fuel)) (initial_state startUrl)"
      by (simp add: S_def)
    also have "\<dots> = F"
      unfolding F_def by (rule crawlSteps_stuck) (use empty in \<open>simp add: F_def\<close>)
    finally show False using q empty by simp
  qed
  then have "fuel = Suc k + (fuel - Suc k)" by simp
  then have "F = crawlSteps w domain i (Suc k + (fuel - Suc k)) (initial_state startUrl)"
    by (simp add: F_def)
  with crawlSteps_visited_mono [of w domain i "Suc k" "initial_state startUrl" "fuel - Suc k"]
  have "set (visited (crawlSteps w domain i (Suc k) (initial_state startUrl))) \<subseteq> set (visited F)"
    by simp
  with step have mem: "u \<in> set (visited F)"
    by auto
  from invF have dist: "distinct (visited F)"
    by (simp add: frontier_inv_def)
  from step result mem dist show ?thesis
    by (simp add: S_def F_def i_def)
qed

theorem C1_failed_page_witness:
  "finite (set demoPages) \<and> demoStart \<in> set demoPages \<and>
   set (inScopeLinks openSite ''example.com'' ''http://example.com/'') =
     set [''http://example.com/about'', ''http://blog.example.com/''] \<and>
   url_resolve openSite ''http://example.com/anything'' demoStart = Some ''http://example.com/anything'' \<and>
   fetch openSite ''http://example.com/about'' = Response 404 (Some ''missing'') \<and>
   crawlSteps openSite ''example.com'' (imagesDirOf openSite ''example.com'') (Suc 1)
       (initial_state demoStart) =
     (crawlSteps openSite ''example.com'' (imagesDirOf openSite ''example.com'') 1
        (initial_state demoStart))
       \<lparr>queue := [''http://blog.example.com/''],
        visited := visited (crawlSteps openSite ''example.com''
                              (imagesDirOf openSite ''example.com'') 1 (initial_state demoStart)) @
                   [''http://example.com/about'']\<rparr> \<and>
   map_option fst (crawlWebsite openSite 9 demoStart) =
     Some (Success ''/app/tmp/example.com-crawl-1700000000000'' 3 2) \<and>
   ''http://example.com/about'' \<in>
     set (visited (crawlSteps openSite ''example.com'' (imagesDirOf openSite ''example.com'') 9
                     (initial_state demoStart)))"
proof -
  have fin: "finite (set demoPages)" by simp
  have start: "demoStart \<in> set demoPages" by code_simp
  have closed: "\<forall>base \<in> set demoPages. set (inScopeLinks openSite ''example.com'' base) \<subseteq> set demoPages"
    by code_simp
  have home: "set (inScopeLinks openSite ''example.com'' ''http://example.com/'') =
     set [''http://example.com/about'', ''http://blog.example.com/'']"
    by code_simp
  have anything: "url_resolve openSite ''http://example.com/anything'' demoStart =
                    Some ''http://example.com/anything''"
    by code_simp
  have "card (set demoPages) \<le> length demoPages" by (rule card_length)
  also have "length demoPages \<le> 9" by code_simp
  finally have fuel: "card (set demoPages) \<le> 9" .
  have host: "url_hostname openSite demoStart = Some ''example.com''" by code_simp
  have dir1: "mkdir_ok openSite (outputDirOf openSite ''example.com'')" by code_simp
  have dir2: "mkdir_ok openSite (imagesDirOf openSite ''example.com'')" by code_simp
  have out: "writeFile_ok openSite (outputFileOf openSite ''example.com'')" by code_simp
  have complete: "case progressCallback openSite of None \<Rightarrow> True | Some callback \<Rightarrow> callback Complete"
    by code_simp
  have deq: "queue (crawlSteps openSite ''example.com'' (imagesDirOf openSite ''example.com'') 1
                     (initial_state demoStart)) =
             ''http://example.com/about'' # [''http://blog.example.com/'']"
    by code_simp
  have resp: "fetch openSite ''http://example.com/about'' = Response 404 (Some ''missing'')"
    by code_simp
  have bad: "\<not> ok 404" by (simp add: ok_def)
  have dir: "outputDirOf openSite ''example.com'' = ''/app/tmp/example.com-crawl-1700000000000''"
    by code_simp
  have counts:
    "length (visited (crawlSteps openSite ''example.com'' (imagesDirOf openSite ''example.com'') 9
                        (initial_state demoStart))) = 3"
    "imageCounter (crawlSteps openSite ''example.com'' (imagesDirOf openSite ''example.com'') 9
                     (initial_state demoStart)) = 2"
    by code_simp+
  note inst = C1_failed_page_skipped_but_counted
         [OF fin start closed fuel host dir1 dir2 out complete deq resp bad]
  from inst have skip: "crawlSteps openSite ''example.com'' (imagesDirOf openSite ''example.com'') (Suc 1)
       (initial_state demoStart) =
     (crawlSteps openSite ''example.com'' (imagesDirOf openSite ''example.com'') 1
        (initial_state demoStart))
       \<lparr>queue := [''http://blog.example.com/''],
        visited := visited (crawlSteps openSite ''example.com''
                              (imagesDirOf openSite ''example.com'') 1 (initial_state demoStart)) @
                   [''http://example.com/about'']\<rparr>"
    by blast
  from inst have mem: "''http://example.com/about'' \<in>
     set (visited (crawlSteps openSite ''example.com'' (imagesDirOf openSite ''example.com'') 9
                     (initial_state demoStart)))"
    by blast
  from inst have "map_option fst (crawlWebsite openSite 9 demoStart) =
      Some (Success (outputDirOf openSite ''example.com'')
              (length (visited (crawlSteps openSite ''example.com''
                 (imagesDirOf openSite ''example.com'') 9 (initial_state demoStart))))
              (imageCounter (crawlSteps openSite ''example.com''
                 (imagesDirOf openSite ''example.com'') 9 (initial_state demoStart))))"
    by simp
  then have res: "map_option fst (crawlWebsite openSite 9 demoStart) =
     Some (Success ''/app/tmp/example.com-crawl-1700000000000'' 3 2)"
    by (simp only: dir counts)
  from fin start home anything resp skip res mem show ?thesis by blast
qed

text \<open>
  The claim as stated fails: of the three URLs that the crawl of \<open>demoSite\<close> dequeues, one
  answers 404, two pages are processed, and the result reports three visited pages.
\<close>

theorem C1_pagesVisited_counts_failed_page:
  "fetch demoSite ''http://example.com/about'' = Response 404 (Some ''missing'') \<and>
   map_option fst (crawlWebsite demoSite 9 demoStart) =
     Some (Success ''/app/tmp/example.com-crawl-1700000000000'' 3 2) \<and>
   visited (crawlSteps demoSite ''example.com'' demoImagesDir 9 (initial_state demoStart)) =
     [''http://example.com/'', ''http://example.com/about'', ''http://blog.example.com/''] \<and>
   pagesProcessed (crawlSteps demoSite ''example.com'' demoImagesDir 9 (initial_state demoStart)) = 2"
  by code_simp

subsection \<open>Image counting\<close>

lemma letters_nth: "list_all (\<lambda>k. char_of (65 + k) = letters ! k) [0..<26]"
  by code_simp

lemma imageId_letters: "imageId n = [letters ! (n mod 26)]"
proof -
  have "n mod 26 \<in> set [0..<26]" by simp
  with letters_nth have "char_of (65 + n mod 26) = letters ! (n mod 26)"
    unfolding list_all_iff by blast
  then show ?thesis by (simp add: imageId_def)
qed

lemma processImage_counted:
  assumes "src im \<noteq> []" and "url_resolve w (src im) c = Some imgUrl"
    and "\<not> startsWith imgUrl ''data:''"
  shows "processImage w d c s im =
           downloadImage w d imgUrl (imageId (imageCounter s))
             (s\<lparr>imageCounter := imageCounter s + 1,
                contentLines := contentLines s @
                  [imageReference (imageId (imageCounter s)) (altTextOf im)]\<rparr>)"
  using assms by (simp add: processImage_def Let_def altTextOf_def)

lemma processImage_not_counted: "\<not> countedImage w c im \<Longrightarrow> processImage w d c s im = s"
  by (auto simp: processImage_def countedImage_def split: option.splits)

lemma countedImage_iff:
  "countedImage w c im \<longleftrightarrow>
     src im \<noteq> [] \<and> (\<exists>imgUrl. url_resolve w (src im) c = Some imgUrl \<and> \<not> startsWith imgUrl ''data:'')"
  by (auto simp: countedImage_def split: option.splits)

lemma processImage_imageCounter:
  "imageCounter (processImage w d c s im) =
     (if countedImage w c im then imageCounter s + 1 else imageCounter s)"
proof (cases "countedImage w c im")
  case True
  then obtain imgUrl where "src im \<noteq> []" "url_resolve w (src im) c = Some imgUrl"
    "\<not> startsWith imgUrl ''data:''"
    by (auto simp: countedImage_iff)
  from processImage_counted [OF this] True show ?thesis by simp
next
  case False
  then show ?thesis by (simp add: processImage_not_counted)
qed

lemma processImage_contentLines:
  "contentLines (processImage w d c s im) =
     (if countedImage w c im
      then contentLines s @ [imageReference [letters ! (imageCounter s mod 26)] (altTextOf im)]
      else contentLines s)"
proof (cases "countedImage w c im")
  case True
  then obtain imgUrl where "src im \<noteq> []" "url_resolve w (src im) c = Some imgUrl"
    "\<not> startsWith imgUrl ''data:''"
    by (auto simp: countedImage_iff)
  from processImage_counted [OF this] True show ?thesis by (simp add: imageId_letters)
next
  case False
  then show ?thesis by (simp add: processImage_not_counted)
qed

lemma processImages_Cons:
  "processImages w d c s (im # rest) = processImages w d c (processImage w d c s im) rest"
  by (simp add: processImages_def)

lemma processImages_imageCounter:
  "imageCounter (processImages w d c s imgs) =
     imageCounter s + length (filter (countedImage w c) imgs)"
proof (induction imgs arbitrary: s)
  case Nil
  show ?case by (simp add: processImages_def)
next
  case (Cons im imgs)
  show ?case
    by (simp only: processImages_Cons Cons.IH) (simp add: processImage_imageCounter)
qed

lemma processImages_contentLines:
  "contentLines (processImages w d c s imgs) =
     contentLines s @ referenceLines (imageCounter s) (filter (countedImage w c) imgs)"
proof (induction imgs arbitrary: s)
  case Nil
  show ?case by (simp add: processImages_def referenceLines_def)
next
  case (Cons im imgs)
  show ?case
    by (simp only: processImages_Cons Cons.IH)
       (simp add: processImage_imageCounter processImage_contentLines referenceLines_def)
qed

lemma processPage_imageCounter:
  "imageCounter (processPage w d i c doc s) =
     imageCounter s +
     (case extractCleanContent (globalDocument w) (selectorEngine doc) (body doc) of
        Inl e \<Rightarrow> 0
      | Inr cleanText \<Rightarrow> length (filter (countedImage w c) (images doc)))"
  by (cases "extractCleanContent (globalDocument w) (selectorEngine doc) (body doc)")
     (simp_all add: processPage_Inl processPage_Inr processImages_imageCounter)

lemma processPage_contentLines:
  "\<exists>pre. contentLines (processPage w d i c doc s) =
     contentLines s @ pre @
     referenceLines (imageCounter s)
       (case extractCleanContent (globalDocument w) (selectorEngine doc) (body doc) of
          Inl e \<Rightarrow> []
        | Inr cleanText \<Rightarrow> filter (countedImage w c) (images doc))"
proof (cases "extractCleanContent (globalDocument w) (selectorEngine doc) (body doc)")
  case (Inl e)
  then have "contentLines (processPage w d i c doc s) =
     contentLines s @ pageHeader doc c @ referenceLines (imageCounter s) []"
    by (simp add: processPage_Inl referenceLines_def)
  with Inl show ?thesis by auto
next
  case (Inr cleanText)
  then have "contentLines (processPage w d i c doc s) =
     contentLines s @ (pageHeader doc c @ [cleanText]) @
     referenceLines (imageCounter s) (filter (countedImage w c) (images doc))"
    by (simp add: processPage_Inr processImages_contentLines)
  with Inr show ?thesis by auto
qed

lemma crawlIteration_imageCounter:
  "imageCounter (crawlIteration w d i s) = imageCounter s + length (imagesEncountered w s)"
proof (cases "queue s")
  case Nil
  then show ?thesis by (simp add: crawlIteration_Nil imagesEncountered_def)
next
  case (Cons u rest)
  show ?thesis
  proof (cases "u \<in> set (visited s)")
    case True
    with Cons show ?thesis by (simp add: crawlIteration_skip imagesEncountered_def)
  next
    case False
    show ?thesis
    proof (cases "loadPage w (s\<lparr>queue := rest, visited := visited s @ [u]\<rparr>) u")
      case None
      with Cons False show ?thesis
        by (simp add: crawlIteration_failed imagesEncountered_def set_add_def)
    next
      case (Some doc)
      with Cons False show ?thesis
        by (simp add: crawlIteration_page imagesEncountered_def set_add_def
              processPage_imageCounter split: sum.split)
    qed
  qed
qed

lemma crawlIteration_contentLines:
  "\<exists>pre. contentLines (crawlIteration w d i s) =
     contentLines s @ pre @ referenceLines (imageCounter s) (imagesEncountered w s)"
proof (cases "queue s")
  case Nil
  then have "contentLines (crawlIteration w d i s) =
      contentLines s @ [] @ referenceLines (imageCounter s) (imagesEncountered w s)"
    by (simp add: crawlIteration_Nil imagesEncountered_def referenceLines_def)
  then show ?thesis ..
next
  case (Cons u rest)
  show ?thesis
  proof (cases "u \<in> set (visited s)")
    case True
    with Cons have "contentLines (crawlIteration w d i s) =
      contentLines s @ [] @ referenceLines (imageCounter s) (imagesEncountered w s)"
      by (simp add: crawlIteration_skip imagesEncountered_def referenceLines_def)
    then show ?thesis ..
  next
    case False
    show ?thesis
    proof (cases "loadPage w (s\<lparr>queue := rest, visited := visited s @ [u]\<rparr>) u")
      case None
      with Cons False have "contentLines (crawlIteration w d i s) =
        contentLines s @ [] @ referenceLines (imageCounter s) (imagesEncountered w s)"
        by (simp add: crawlIteration_failed imagesEncountered_def set_add_def referenceLines_def)
      then show ?thesis ..
    next
      case (Some doc)
      from processPage_contentLines
             [of w d i u doc "s\<lparr>queue := rest, visited := visited s @ [u]\<rparr>"]
      show ?thesis using Cons False Some
        by (simp add: crawlIteration_page imagesEncountered_def set_add_def)
    qed
  qed
qed

lemma crawlSteps_imageCounter:
  "imageCounter (crawlSteps w d i k (initial_state startUrl)) = imagesBefore w d i startUrl k"
proof (induction k)
  case 0
  show ?case by (simp add: imagesBefore_def initial_state_def)
next
  case (Suc k)
  have "imageCounter (crawlSteps w d i (Suc k) (initial_state startUrl)) =
          imageCounter (crawlSteps w d i k (initial_state startUrl)) +
          length (imagesEncountered w (crawlSteps w d i k (initial_state startUrl)))"
    by (simp only: crawlSteps_Suc_right crawlIteration_imageCounter)
  with Suc show ?case by (simp add: imagesBefore_def)
qed

lemma crawlSteps_contentLines_append:
  "\<exists>more. contentLines (crawlSteps w d i k s) = contentLines s @ more"
proof (induction k)
  case 0
  show ?case by simp
next
  case (Suc k)
  then obtain more where m: "contentLines (crawlSteps w d i k s) = contentLines s @ more"
    by blast
  from crawlIteration_contentLines [of w d i "crawlSteps w d i k s"]
  obtain pre where "contentLines (crawlIteration w d i (crawlSteps w d i k s)) =
      contentLines (crawlSteps w d i k s) @ pre @
      referenceLines (imageCounter (crawlSteps w d i k s))
        (imagesEncountered w (crawlSteps w d i k s))"
    by blast
  with m have "contentLines (crawlSteps w d i (Suc k) s) =
      contentLines s @ (more @ pre @
        referenceLines (imageCounter (crawlSteps w d i k s))
          (imagesEncountered w (crawlSteps w d i k s)))"
    by (simp only: crawlSteps_Suc_right append_assoc)
  then show ?case ..
qed

text \<open>
  C4. The image counter at the head of round \<open>k\<close> is the number of counted images that the
  crawl met in all rounds before, so the counted images of round \<open>k\<close> are number
  \<open>imagesBefore k\<close>, \<open>imagesBefore k + 1\<close>, ... of the whole crawl. The round appends
  their reference lines, and the line of image number \<open>n\<close> carries the letter at position
  \<open>n mod 26\<close> of A to Z. The first image (number 0) and the 27th (number 26) both get \<open>A\<close>.
\<close>

theorem C4_identifier_is_counter_mod_26:
  "imageCounter (crawlSteps w domain imagesDir k (initial_state startUrl)) =
     imagesBefore w domain imagesDir startUrl k \<and>
   (\<exists>pre. contentLines (crawlSteps w domain imagesDir (Suc k) (initial_state startUrl)) =
      contentLines (crawlSteps w domain imagesDir k (initial_state startUrl)) @ pre @
      referenceLines (imagesBefore w domain imagesDir startUrl k)
        (imagesEncountered w (crawlSteps w domain imagesDir k (initial_state startUrl)))) \<and>
   imageId n = [letters ! (n mod 26)] \<and>
   imageId 0 = ''A'' \<and> imageId 26 = ''A''"
proof -
  have a: "imageCounter (crawlSteps w domain imagesDir k (initial_state startUrl)) =
     imagesBefore w domain imagesDir startUrl k"
    by (rule crawlSteps_imageCounter)
  from crawlIteration_contentLines
         [of w domain imagesDir "crawlSteps w domain imagesDir k (initial_state startUrl)"]
  have b: "\<exists>pre. contentLines (crawlSteps w domain imagesDir (Suc k) (initial_state startUrl)) =
      contentLines (crawlSteps w domain imagesDir k (initial_state startUrl)) @ pre @
      referenceLines (imagesBefore w domain imagesDir startUrl k)
        (imagesEncountered w (crawlSteps w domain imagesDir k (initial_state startUrl)))"
    by (simp only: crawlSteps_Suc_right a)
  have c: "imageId 0 = ''A''" "imageId 26 = ''A''"
    by code_simp+
  from a b c imageId_letters [of n] show ?thesis by blast
qed

theorem C4_identifier_witness:
  "imageCounter (crawlSteps gallerySite ''example.com'' demoImagesDir 1 (initial_state demoStart)) = 27 \<and>
   length (imagesEncountered gallerySite (initial_state demoStart)) = 27 \<and>
   contentLines (crawlSteps gallerySite ''example.com'' demoImagesDir 1 (initial_state demoStart)) ! 3 =
     imageReference ''A'' ''pic'' \<and>
   contentLines (crawlSteps gallerySite ''example.com'' demoImagesDir 1 (initial_state demoStart)) ! 4 =
     imageReference ''B'' ''pic'' \<and>
   contentLines (crawlSteps gallerySite ''example.com'' demoImagesDir 1 (initial_state demoStart)) ! 29 =
     imageReference ''A'' ''pic''"
proof -
  have n: "imagesBefore gallerySite ''example.com'' demoImagesDir demoStart 1 =
             length (imagesEncountered gallerySite (initial_state demoStart))"
    by (simp add: imagesBefore_def)
  have m: "length (imagesEncountered gallerySite (initial_state demoStart)) = 27"
    by code_simp
  have l: "contentLines (crawlSteps gallerySite ''example.com'' demoImagesDir 1 (initial_state demoStart)) ! 3 =
     imageReference ''A'' ''pic''"
    "contentLines (crawlSteps gallerySite ''example.com'' demoImagesDir 1 (initial_state demoStart)) ! 4 =
     imageReference ''B'' ''pic''"
    "contentLines (crawlSteps gallerySite ''example.com'' demoImagesDir 1 (initial_state demoStart)) ! 29 =
     imageReference ''A'' ''pic''"
    by code_simp+
  from C4_identifier_is_counter_mod_26 [of gallerySite "''example.com''" demoImagesDir 1 demoStart 0]
  have "imageCounter (crawlSteps gallerySite ''example.com'' demoImagesDir 1 (initial_state demoStart)) =
     imagesBefore gallerySite ''example.com'' demoImagesDir demoStart 1"
    by blast
  with n m l show ?thesis by simp
qed

text \<open>
  C10. The \<open>imagesDownloaded\<close> field of a successful result is the number of counted images
  that the crawl met, whatever became of their downloads: every counted image raises the
  counter by one, also when its fetch fails or answers with a status outside 200..299, and
  then no file is written for it.
\<close>

theorem C10_imagesDownloaded_counts_encountered:
  assumes "crawlWebsite w fuel startUrl = Some (Success dir pages imgs, written)"
  shows "(\<exists>domain. url_hostname w startUrl = Some domain \<and>
            imgs = imagesBefore w domain (imagesDirOf w domain) startUrl fuel) \<and>
         (countedImage w currentUrl im \<longrightarrow>
            imageCounter (processImage w imagesDir currentUrl s im) = imageCounter s + 1) \<and>
         (countedImage w currentUrl im \<longrightarrow>
            url_resolve w (src im) currentUrl = Some imgUrl \<longrightarrow>
            (fetch w imgUrl = NetworkError \<or>
             (\<exists>status content. fetch w imgUrl = Response status content \<and> \<not> ok status)) \<longrightarrow>
            imageCounter (processImage w imagesDir currentUrl s im) = imageCounter s + 1 \<and>
            files (processImage w imagesDir currentUrl s im) = files s)"
proof (intro conjI impI)
  from assms obtain domain where host: "url_hostname w startUrl = Some domain"
    by (auto simp: crawlWebsite_def split: option.splits)
  from assms host obtain final
    where loop: "crawlLoop w domain (imagesDirOf w domain) fuel (initial_state startUrl) = Some final"
      and imgs: "imgs = imageCounter final"
    by (auto simp: crawlWebsite_def Let_def split: option.splits if_splits)
  from loop have "final = crawlSteps w domain (imagesDirOf w domain) fuel (initial_state startUrl)"
    by (simp add: crawlLoop_crawlSteps split: if_splits)
  with imgs have "imgs = imagesBefore w domain (imagesDirOf w domain) startUrl fuel"
    by (simp add: crawlSteps_imageCounter)
  with host show "\<exists>domain. url_hostname w startUrl = Some domain \<and>
            imgs = imagesBefore w domain (imagesDirOf w domain) startUrl fuel"
    by blast
next
  assume "countedImage w currentUrl im"
  then show "imageCounter (processImage w imagesDir currentUrl s im) = imageCounter s + 1"
    by (simp add: processImage_imageCounter)
next
  assume c: "countedImage w currentUrl im"
    and r: "url_resolve w (src im) currentUrl = Some imgUrl"
    and f: "fetch w imgUrl = NetworkError \<or>
             (\<exists>status content. fetch w imgUrl = Response status content \<and> \<not> ok status)"
  from c show "imageCounter (processImage w imagesDir currentUrl s im) = imageCounter s + 1"
    by (simp add: processImage_imageCounter)
  from c r have "src im \<noteq> []" "\<not> startsWith imgUrl ''data:''"
    by (auto simp: countedImage_iff)
  from processImage_counted [OF this(1) r this(2)] f
  show "files (processImage w imagesDir currentUrl s im) = files s"
    by (auto simp: downloadImage_def)
qed

theorem C10_imagesDownloaded_witness:
  "map_option fst (crawlWebsite demoSite 9 demoStart) =
     Some (Success ''/app/tmp/example.com-crawl-1700000000000'' 3 2) \<and>
   imagesBefore demoSite ''example.com'' (imagesDirOf demoSite ''example.com'') demoStart 9 = 2 \<and>
   map fst (files (crawlSteps demoSite ''example.com'' (imagesDirOf demoSite ''example.com'') 9
                     (initial_state demoStart))) =
     [''/app/tmp/example.com-crawl-1700000000000/images/image_B.png''] \<and>
   fetch demoSite ''http://example.com/x.png'' = Response 500 None \<and>
   imageCounter (processImage demoSite demoImagesDir demoStart (initial_state demoStart)
                   (Img ''x.png'' ''broken'')) = 1 \<and>
   files (processImage demoSite demoImagesDir demoStart (initial_state demoStart)
            (Img ''x.png'' ''broken'')) = []"
proof -
  have res: "crawlWebsite demoSite 9 demoStart =
     Some (Success ''/app/tmp/example.com-crawl-1700000000000'' 3 2,
           snd (the (crawlWebsite demoSite 9 demoStart)))"
    by code_simp
  have fst_res: "map_option fst (crawlWebsite demoSite 9 demoStart) =
     Some (Success ''/app/tmp/example.com-crawl-1700000000000'' 3 2)"
    by code_simp
  have host: "url_hostname demoSite demoStart = Some ''example.com''" by code_simp
  have fs: "map fst (files (crawlSteps demoSite ''example.com'' (imagesDirOf demoSite ''example.com'') 9
                     (initial_state demoStart))) =
     [''/app/tmp/example.com-crawl-1700000000000/images/image_B.png'']"
    by code_simp
  have c: "countedImage demoSite demoStart (Img ''x.png'' ''broken'')" by code_simp
  have r: "url_resolve demoSite (src (Img ''x.png'' ''broken'')) demoStart =
             Some ''http://example.com/x.png''"
    by code_simp
  have f: "fetch demoSite ''http://example.com/x.png'' = Response 500 None" by code_simp
  have bad: "\<not> ok 500" by (simp add: ok_def)
  have i0: "imageCounter (initial_state demoStart) = 0" "files (initial_state demoStart) = []"
    by (simp_all add: initial_state_def)
  note inst = C10_imagesDownloaded_counts_encountered
    [OF res, of demoStart "Img ''x.png'' ''broken''" demoImagesDir "initial_state demoStart"
       "''http://example.com/x.png''"]
  from inst host
  have n: "imagesBefore demoSite ''example.com'' (imagesDirOf demoSite ''example.com'') demoStart 9 = 2"
    by auto
  from inst c r f bad i0
  have "imageCounter (processImage demoSite demoImagesDir demoStart (initial_state demoStart)
                   (Img ''x.png'' ''broken'')) = 1 \<and>
        files (processImage demoSite demoImagesDir demoStart (initial_state demoStart)
            (Img ''x.png'' ''broken'')) = []"
    by auto
  with fst_res n fs f show ?thesis by simp
qed

lemma imageReference_text:
  "imageReference (imageId (imageCounter s)) (altTextOf im) =
     ''\<newline>image['' @ [CHR 0x22] @ imageId (imageCounter s) @ [CHR 0x22] @ '']: '' @
       (if alt im = [] then ''No description'' else alt im)"
  by (simp add: imageReference_def altTextOf_def)

text \<open>
  C5. For an image element whose source resolves to a URL that is not a \<open>data:\<close> URL, the
  reference line is appended, and the download then runs on the state that holds it. The
  line is a line feed, then \<open>image["\<close>, the identifier, \<open>"]: \<close> and the alternative text of
  the image, or \<open>No description\<close> when the image has none. The download never touches the
  content: the line stays whatever the fetch gives. When the fetch fails or answers with a
  status outside 200..299, no file is written, and the loop goes on with the rest of the
  page's images. Later rounds of the crawl only append to the content.
\<close>

theorem C5_reference_kept_when_download_fails:
  assumes "src im \<noteq> []" and "url_resolve w (src im) currentUrl = Some imgUrl"
    and "\<not> startsWith imgUrl ''data:''"
  shows "processImage w imagesDir currentUrl s im =
           downloadImage w imagesDir imgUrl (imageId (imageCounter s))
             (s\<lparr>imageCounter := imageCounter s + 1,
                contentLines := contentLines s @
                  [''\<newline>image['' @ [CHR 0x22] @ imageId (imageCounter s) @ [CHR 0x22] @ '']: '' @
                     (if alt im = [] then ''No description'' else alt im)]\<rparr>) \<and>
         contentLines (processImage w imagesDir currentUrl s im) =
           contentLines s @
             [''\<newline>image['' @ [CHR 0x22] @ imageId (imageCounter s) @ [CHR 0x22] @ '']: '' @
                (if alt im = [] then ''No description'' else alt im)] \<and>
         ((fetch w imgUrl = NetworkError \<or>
           (\<exists>status content. fetch w imgUrl = Response status content \<and> \<not> ok status)) \<longrightarrow>
          files (processImage w imagesDir currentUrl s im) = files s) \<and>
         processImages w imagesDir currentUrl s (im # rest) =
           processImages w imagesDir currentUrl (processImage w imagesDir currentUrl s im) rest \<and>
         (\<exists>more. contentLines (processImages w imagesDir currentUrl s (im # rest)) =
            contentLines s @
              (''\<newline>image['' @ [CHR 0x22] @ imageId (imageCounter s) @ [CHR 0x22] @ '']: '' @
                 (if alt im = [] then ''No description'' else alt im)) # more) \<and>
         (\<exists>more. contentLines (crawlSteps w domain imagesDir k later) = contentLines later @ more)"
proof -
  let ?line = "''\<newline>image['' @ [CHR 0x22] @ imageId (imageCounter s) @ [CHR 0x22] @ '']: '' @
                 (if alt im = [] then ''No description'' else alt im)"
  have ref: "imageReference (imageId (imageCounter s)) (altTextOf im) = ?line"
    by (rule imageReference_text)
  have step: "processImage w imagesDir currentUrl s im =
           downloadImage w imagesDir imgUrl (imageId (imageCounter s))
             (s\<lparr>imageCounter := imageCounter s + 1,
                contentLines := contentLines s @ [?line]\<rparr>)"
    using processImage_counted [OF assms, of imagesDir s] by (simp only: ref)
  have lines: "contentLines (processImage w imagesDir currentUrl s im) = contentLines s @ [?line]"
    by (simp add: step)
  have nofile: "files (processImage w imagesDir currentUrl s im) = files s"
    if "fetch w imgUrl = NetworkError \<or>
           (\<exists>status content. fetch w imgUrl = Response status content \<and> \<not> ok status)"
    using that by (auto simp: step downloadImage_def)
  have "contentLines (processImages w imagesDir currentUrl s (im # rest)) =
          contentLines s @ ?line #
            referenceLines (imageCounter (processImage w imagesDir currentUrl s im))
              (filter (countedImage w currentUrl) rest)"
    by (simp only: processImages_Cons processImages_contentLines lines) simp
  then have more: "\<exists>more. contentLines (processImages w imagesDir currentUrl s (im # rest)) =
            contentLines s @ ?line # more"
    ..
  from step lines nofile more processImages_Cons [of w imagesDir currentUrl s im rest]
    crawlSteps_contentLines_append [of w domain imagesDir k later]
  show ?thesis by blast
qed

theorem C5_reference_witness:
  "fetch demoSite ''http://example.com/x.png'' = Response 500 None \<and>
   contentLines (processImage demoSite demoImagesDir demoStart (initial_state demoStart)
                   (Img ''x.png'' ''broken'')) =
     [''\<newline>image['' @ [CHR 0x22] @ ''A'' @ [CHR 0x22] @ '']: broken''] \<and>
   files (processImage demoSite demoImagesDir demoStart (initial_state demoStart)
            (Img ''x.png'' ''broken'')) = [] \<and>
   contentLines (processImages demoSite demoImagesDir demoStart (initial_state demoStart)
                   (images (demoParse ''home''))) =
     [''\<newline>image['' @ [CHR 0x22] @ ''A'' @ [CHR 0x22] @ '']: broken'',
      ''\<newline>image['' @ [CHR 0x22] @ ''B'' @ [CHR 0x22] @ '']: No description'']"
proof -
  have a: "src (Img ''x.png'' ''broken'') \<noteq> []" by simp
  have r: "url_resolve demoSite (src (Img ''x.png'' ''broken'')) demoStart =
             Some ''http://example.com/x.png''"
    by code_simp
  have d: "\<not> startsWith ''http://example.com/x.png'' ''data:''" by code_simp
  have f: "fetch demoSite ''http://example.com/x.png'' = Response 500 None" by code_simp
  have bad: "\<not> ok 500" by (simp add: ok_def)
  have i0: "contentLines (initial_state demoStart) = []" "files (initial_state demoStart) = []"
    "imageId (imageCounter (initial_state demoStart)) = ''A''"
    by code_simp+
  have all: "contentLines (processImages demoSite demoImagesDir demoStart (initial_state demoStart)
                   (images (demoParse ''home''))) =
     [''\<newline>image['' @ [CHR 0x22] @ ''A'' @ [CHR 0x22] @ '']: broken'',
      ''\<newline>image['' @ [CHR 0x22] @ ''B'' @ [CHR 0x22] @ '']: No description'']"
    by code_simp
  note inst = C5_reference_kept_when_download_fails
    [OF a r d, of demoImagesDir "initial_state demoStart" "[]" "''example.com''" 0
       "initial_state demoStart"]
  from inst have "contentLines (processImage demoSite demoImagesDir demoStart (initial_state demoStart)
                   (Img ''x.png'' ''broken'')) =
      contentLines (initial_state demoStart) @
        [''\<newline>image['' @ [CHR 0x22] @ imageId (imageCounter (initial_state demoStart)) @
           [CHR 0x22] @ '']: '' @
           (if alt (Img ''x.png'' ''broken'') = [] then ''No description''
            else alt (Img ''x.png'' ''broken''))]"
    by blast
  with i0 have lines: "contentLines (processImage demoSite demoImagesDir demoStart
      (initial_state demoStart) (Img ''x.png'' ''broken'')) =
      [''\<newline>image['' @ [CHR 0x22] @ ''A'' @ [CHR 0x22] @ '']: broken'']"
    by simp
  from inst f bad have "files (processImage demoSite demoImagesDir demoStart (initial_state demoStart)
            (Img ''x.png'' ''broken'')) = files (initial_state demoStart)"
    by blast
  with i0 have nofile: "files (processImage demoSite demoImagesDir demoStart (initial_state demoStart)
            (Img ''x.png'' ''broken'')) = []"
    by simp
  from f lines nofile all show ?thesis by blast
qed

subsection \<open>Content cleaner\<close>

text \<open>
  C7, as the code has it. The filter drops the line \<open>const x = {"a":1,"b":2,"c":3}\<close> and
  keeps the line \<open>The quick brown fox jumps over the lazy dog.\<close>; of a text made of both
  lines only the second is left. A line is dropped when its trimmed form holds a declaration
  or function token, a DOM or global reference, a module-path fragment, a strict
  (in)equality or increment or decrement operator, when it is longer than 100 characters
  without a space, or when more than three tenths of its characters are neither word
  characters (letters, digits and the underscore) nor white space.
\<close>

theorem C7_code_like_line_dropped:
  "keepLine codeLine = False \<and>
   keepLine proseLine = True \<and>
   filterCodeLikeContent (codeLine @ ''\<newline>'' @ proseLine) = proseLine \<and>
   (js_includes (trim line) ''function('' \<or> js_includes (trim line) ''() =>'' \<or>
    js_includes (trim line) ''var '' \<or> js_includes (trim line) ''const '' \<or>
    js_includes (trim line) ''let '' \<or>
    js_includes (trim line) ''self.__next'' \<or> js_includes (trim line) ''window.'' \<or>
    js_includes (trim line) ''document.'' \<or> js_includes (trim line) ''$.'' \<or>
    js_includes (trim line) ''jQuery'' \<or>
    js_includes (trim line) ''/static/'' \<or> js_includes (trim line) ''/_next/'' \<or>
    js_includes (trim line) ''.js'' \<or> js_includes (trim line) ''.css'' \<or>
    js_includes (trim line) ''==='' \<or> js_includes (trim line) ''!=='' \<or>
    js_includes (trim line) ''++'' \<or> js_includes (trim line) ''--'' \<or>
    (length (trim line) > 100 \<and> \<not> js_includes (trim line) '' '') \<or>
    10 * length (filter (\<lambda>c. \<not> isWordChar c \<and> \<not> isSpace c) (trim line)) > 3 * length (trim line)
    \<longrightarrow> keepLine line = False)"
proof (intro conjI impI)
  show "keepLine codeLine = False" by code_simp
  show "keepLine proseLine = True" by code_simp
  show "filterCodeLikeContent (codeLine @ ''\<newline>'' @ proseLine) = proseLine" by code_simp
next
  assume "js_includes (trim line) ''function('' \<or> js_includes (trim line) ''() =>'' \<or>
    js_includes (trim line) ''var '' \<or> js_includes (trim line) ''const '' \<or>
    js_includes (trim line) ''let '' \<or>
    js_includes (trim line) ''self.__next'' \<or> js_includes (trim line) ''window.'' \<or>
    js_includes (trim line) ''document.'' \<or> js_includes (trim line) ''$.'' \<or>
    js_includes (trim line) ''jQuery'' \<or>
    js_includes (trim line) ''/static/'' \<or> js_includes (trim line) ''/_next/'' \<or>
    js_includes (trim line) ''.js'' \<or> js_includes (trim line) ''.css'' \<or>
    js_includes (trim line) ''==='' \<or> js_includes (trim line) ''!=='' \<or>
    js_includes (trim line) ''++'' \<or> js_includes (trim line) ''--'' \<or>
    (length (trim line) > 100 \<and> \<not> js_includes (trim line) '' '') \<or>
    10 * length (filter (\<lambda>c. \<not> isWordChar c \<and> \<not> isSpace c) (trim line)) > 3 * length (trim line)"
  then have "isCodeLike (trim line)"
    unfolding isCodeLike_def by blast
  then show "keepLine line = False"
    by (simp add: keepLine_def Let_def)
qed

theorem C7_code_like_witness:
  "js_includes (trim codeLine) ''const '' \<and> keepLine codeLine = False"
proof -
  have c: "js_includes (trim codeLine) ''const ''" by code_simp
  from C7_code_like_line_dropped [of codeLine] c show ?thesis by blast
qed

text \<open>
  The claim as stated fails on a line of underscores and letters: half of the characters of
  \<open>__init__\<close> are neither alphanumeric nor white space, yet the line is kept, because the
  pattern of the filter takes the underscore for a word character.
\<close>

theorem C7_underscore_line_kept:
  "spec_mostlySpecial (trim underscoreLine) \<and> keepLine underscoreLine = True"
  by code_simp





lemma matchesAny_contentSelectors:
  "matchesAny engine contentSelectors n = spec_contentBearing engine n"
  by (auto simp: matchesAny_def contentSelectors_def spec_contentBearing_def contentTags_def
        contentClasses_def)

lemma querySelectorAll_content:
  "querySelectorAll engine root contentSelectors =
     filter (spec_contentBearing engine) (descendants root)"
  by (simp add: querySelectorAll_def matchesAny_contentSelectors [abs_def])

lemma matchesAny_paragraph:
  "matchesAny engine [Tag ''p''] n = (isElement n \<and> engine n (Tag ''p''))"
  by (auto simp: matchesAny_def)

lemma querySelectorAll_paragraph:
  "querySelectorAll engine root [Tag ''p''] =
     filter (\<lambda>n. isElement n \<and> engine n (Tag ''p'')) (descendants root)"
  by (simp add: querySelectorAll_def matchesAny_paragraph [abs_def])

lemma paragraph_contentBearing:
  "isElement n \<and> engine n (Tag ''p'') \<Longrightarrow> spec_contentBearing engine n"
  by (simp add: spec_contentBearing_def contentTags_def)

lemma no_content_no_paragraph:
  assumes "filter (spec_contentBearing engine) (descendants root) = []"
  shows "filter (\<lambda>n. isElement n \<and> engine n (Tag ''p'')) (descendants root) = []"
  using assms paragraph_contentBearing [of _ engine] by (auto simp: filter_empty_conv)





text \<open>
  Without the global document the last resort raises instead of walking the text nodes; the
  \<open>catch\<close> of the page loop then drops the rest of the page.
\<close>

lemma extractTextBlocks_no_global:
  assumes "filter (spec_contentBearing engine) (descendants root) = []"
  shows "extractTextBlocks NoGlobalDocument engine root = Inl ReferenceError"
  using assms no_content_no_paragraph [OF assms]
  by (simp add: extractTextBlocks_def Let_def querySelectorAll_content querySelectorAll_paragraph
        getAllTextNodes_def)




subsection \<open>Archiver\<close>

lemma handleEvent_nonFatal:
  "nonFatal e \<Longrightarrow> handleEvent r e = r\<lparr>console := console r @ [WarnError (warningOf e)]\<rparr>"
  by (cases e) simp_all

lemma foldl_handleEvent_nonFatal:
  "list_all nonFatal pre \<Longrightarrow>
   foldl handleEvent r pre = r\<lparr>console := console r @ map (\<lambda>e. WarnError (warningOf e)) pre\<rparr>"
proof (induction pre arbitrary: r)
  case Nil
  show ?case by simp
next
  case (Cons e pre)
  then show ?case by (simp add: handleEvent_nonFatal)
qed

lemma handleEvent_settled: "promise r \<noteq> Pending \<Longrightarrow> promise (handleEvent r e) = promise r"
  by (cases e) (simp_all add: resolve_def reject_def)

lemma foldl_handleEvent_settled:
  "promise r \<noteq> Pending \<Longrightarrow> promise (foldl handleEvent r es) = promise r"
  by (induction es arbitrary: r) (simp_all add: handleEvent_settled)

text \<open>
  C8. While only \<open>ENOENT\<close> warnings have arrived, the promise is pending and each warning is
  on the console. The first other event settles the promise for good: any other warning and
  any error reject it with that error, and the close of the output resolves it after logging
  the byte count.
\<close>

theorem C8_archive_outcome:
  assumes "list_all nonFatal pre"
  shows "createZipArchive pre =
           \<lparr>promise = Pending, console = map (\<lambda>e. WarnError (warningOf e)) pre\<rparr> \<and>
         (code err \<noteq> ''ENOENT'' \<longrightarrow>
            promise (createZipArchive (pre @ ArchiveWarning err # post)) = Rejected err) \<and>
         promise (createZipArchive (pre @ ArchiveErrorEvent err # post)) = Rejected err \<and>
         promise (createZipArchive (pre @ OutputClose n # post)) = Resolved \<and>
         console (createZipArchive (pre @ [OutputClose n])) =
           map (\<lambda>e. WarnError (warningOf e)) pre @ [LogArchiveCreated n]"
proof -
  define r0 where "r0 = \<lparr>promise = Pending, console = []\<rparr>"
  define r1 where "r1 = \<lparr>promise = Pending, console = map (\<lambda>e. WarnError (warningOf e)) pre\<rparr>"
  have pre: "foldl handleEvent r0 pre = r1"
    using foldl_handleEvent_nonFatal [OF assms, of r0] by (simp add: r0_def r1_def)
  have after: "promise (foldl handleEvent r0 (pre @ e # post)) = promise (handleEvent r1 e)"
    if "promise (handleEvent r1 e) \<noteq> Pending" for e
    using that by (simp add: pre foldl_handleEvent_settled)
  have a: "createZipArchive pre = r1"
    by (simp add: createZipArchive_def pre [unfolded r0_def])
  have b: "promise (createZipArchive (pre @ ArchiveWarning err # post)) = Rejected err"
    if "code err \<noteq> ''ENOENT''"
    using that after [of "ArchiveWarning err"]
    by (simp add: createZipArchive_def r0_def [symmetric]) (simp add: r1_def reject_def)
  have c: "promise (createZipArchive (pre @ ArchiveErrorEvent err # post)) = Rejected err"
    using after [of "ArchiveErrorEvent err"]
    by (simp add: createZipArchive_def r0_def [symmetric]) (simp add: r1_def reject_def)
  have d: "promise (createZipArchive (pre @ OutputClose n # post)) = Resolved"
    using after [of "OutputClose n"]
    by (simp add: createZipArchive_def r0_def [symmetric]) (simp add: r1_def resolve_def)
  have e: "console (createZipArchive (pre @ [OutputClose n])) =
           map (\<lambda>e. WarnError (warningOf e)) pre @ [LogArchiveCreated n]"
    by (simp add: createZipArchive_def r0_def [symmetric] pre) (simp add: r1_def resolve_def)
  from a b c d e show ?thesis unfolding r1_def by blast
qed

theorem C8_archive_witness:
  "createZipArchive [ArchiveWarning (ArchiverError ''ENOENT'' ''no such file'')] =
     \<lparr>promise = Pending, console = [WarnError (ArchiverError ''ENOENT'' ''no such file'')]\<rparr> \<and>
   promise (createZipArchive
     [ArchiveWarning (ArchiverError ''ENOENT'' ''no such file''),
      ArchiveWarning (ArchiverError ''EACCES'' ''permission denied''),
      OutputClose 1024]) = Rejected (ArchiverError ''EACCES'' ''permission denied'') \<and>
   createZipArchive
     [ArchiveWarning (ArchiverError ''ENOENT'' ''no such file''), OutputClose 1024] =
     \<lparr>promise = Resolved,
      console = [WarnError (ArchiverError ''ENOENT'' ''no such file''), LogArchiveCreated 1024]\<rparr>"
proof -
  have p: "list_all nonFatal [ArchiveWarning (ArchiverError ''ENOENT'' ''no such file'')]"
    by simp
  have q: "code (ArchiverError ''EACCES'' ''permission denied'') \<noteq> ''ENOENT''"
    by simp
  have r: "createZipArchive
     [ArchiveWarning (ArchiverError ''ENOENT'' ''no such file''), OutputClose 1024] =
     \<lparr>promise = Resolved,
      console = [WarnError (ArchiverError ''ENOENT'' ''no such file''), LogArchiveCreated 1024]\<rparr>"
    by code_simp
  from C8_archive_outcome [OF p, of "ArchiverError ''EACCES'' ''permission denied''"
                             "[OutputClose 1024]" 1024] q r
  show ?thesis by simp
qed

end
